theory Spec2Isabelle
  imports Main "HOL-Library.Word"
begin

unbundle bit_operations_syntax

section \<open>Cell values (the Go type any) and their textual rendering\<close>

text \<open>
  A Go string is a sequence of bytes; it is modelled as a \<open>string\<close> (a list of 8-bit
  characters). Cell values are of type \<open>any\<close>. The kinds the code tells apart are
  modelled by one constructor each: \<open>int\<close>, \<open>int64\<close>, \<open>float64\<close> and \<open>string\<close> (the kinds
  of \<open>compareAny\<close>), \<open>bool\<close> and \<open>nil\<close>. A \<open>float64\<close> is its IEEE-754 bit pattern.
  \<open>CNum s\<close> stands for a value of any other numeric kind (int8 .. uint64, float32) and
  \<open>COther s\<close> for a value of any other type; both carry their \<open>%v\<close> rendering \<open>s\<close>.
\<close>

datatype cell =
    CNil
  | CBool bool
  | CInt int
  | CInt64 int
  | CFloat64 "64 word"
  | CString string
  | CNum string
  | COther string

datatype error =
    ErrInvalidDimensions
  | ErrHeadersRequired
  | ErrInvalidRowIndex
  | ErrInvalidColumnIndex
  | ErrColumnNotFound
  | ErrUnsupportedFormat
  | ErrEmptyDataset
  | ErrInvalidData
  | ErrOther string
  | Panic

text \<open>Decimal digits of a natural number, most significant first.\<close>

fun digits :: "nat \<Rightarrow> string" where
  "digits n = (if n < 10 then [''0123456789'' ! n]
               else digits (n div 10) @ [''0123456789'' ! (n mod 10)])"

declare digits.simps [simp del]

definition show_int :: "int \<Rightarrow> string" where
  "show_int i = (if i < 0 then CHR ''-'' # digits (nat (- i)) else digits (nat i))"

text \<open>
  \<open>fmt.Sprintf("%v", v)\<close>. The shortest-representation formatting of a \<open>float64\<close> is
  library code; it is the parameter \<open>ff\<close> of every function that renders a cell.
\<close>

fun render :: "(64 word \<Rightarrow> string) \<Rightarrow> cell \<Rightarrow> string" where
  "render ff CNil = ''<nil>''"
| "render ff (CBool b) = (if b then ''true'' else ''false'')"
| "render ff (CInt i) = show_int i"
| "render ff (CInt64 i) = show_int i"
| "render ff (CFloat64 w) = ff w"
| "render ff (CString s) = s"
| "render ff (CNum s) = s"
| "render ff (COther s) = s"

section \<open>compareAny\<close>

text \<open>\<open>cmp.Compare\<close> on integers.\<close>

definition compare_int :: "int \<Rightarrow> int \<Rightarrow> int" where
  "compare_int x y = (if x < y then - 1 else if y < x then 1 else 0)"

text \<open>\<open>cmp.Compare\<close> on strings: bytewise lexicographic comparison.\<close>

fun compare_string :: "string \<Rightarrow> string \<Rightarrow> int" where
  "compare_string [] [] = 0"
| "compare_string [] (y # ys) = - 1"
| "compare_string (x # xs) [] = 1"
| "compare_string (x # xs) (y # ys) =
     (if (of_char x :: nat) < of_char y then - 1
      else if (of_char y :: nat) < of_char x then 1
      else compare_string xs ys)"

text \<open>
  \<open>cmp.Compare\<close> on \<open>float64\<close>: a NaN is less than any non-NaN and equal to a NaN; other
  values compare by \<open><\<close>, which on bit patterns is the order of sign and magnitude
  (so that \<open>-0\<close> and \<open>+0\<close> are equal).
\<close>

definition f64_isNaN :: "64 word \<Rightarrow> bool" where
  "f64_isNaN w \<longleftrightarrow> drop_bit 52 w AND 0x7FF = 0x7FF \<and> w AND 0xFFFFFFFFFFFFF \<noteq> 0"

definition f64_key :: "64 word \<Rightarrow> int" where
  "f64_key w = (if bit w 63 then - int (unat (w AND 0x7FFFFFFFFFFFFFFF))
                else int (unat (w AND 0x7FFFFFFFFFFFFFFF)))"

definition compare_float64 :: "64 word \<Rightarrow> 64 word \<Rightarrow> int" where
  "compare_float64 x y =
     (if f64_isNaN x then (if f64_isNaN y then 0 else - 1)
      else if f64_isNaN y then 1
      else if f64_key x < f64_key y then - 1
      else if f64_key y < f64_key x then 1
      else 0)"

fun compareAny :: "(64 word \<Rightarrow> string) \<Rightarrow> cell \<Rightarrow> cell \<Rightarrow> int" where
  "compareAny ff (CInt va) (CInt vb) = compare_int va vb"
| "compareAny ff (CInt64 va) (CInt64 vb) = compare_int va vb"
| "compareAny ff (CFloat64 va) (CFloat64 vb) = compare_float64 va vb"
| "compareAny ff (CString va) (CString vb) = compare_string va vb"
| "compareAny ff a b = compare_string (render ff a) (render ff b)"

text \<open>The pairs of operands that \<open>compareAny\<close> compares natively.\<close>

fun native_pair :: "cell \<Rightarrow> cell \<Rightarrow> bool" where
  "native_pair (CInt va) (CInt vb) = True"
| "native_pair (CInt64 va) (CInt64 vb) = True"
| "native_pair (CFloat64 va) (CFloat64 vb) = True"
| "native_pair (CString va) (CString vb) = True"
| "native_pair a b = False"


datatype kind = KNil | KBool | KInt | KInt64 | KFloat64 | KString | KNum | KOther

fun kind_of :: "cell \<Rightarrow> kind" where
  "kind_of CNil = KNil"
| "kind_of (CBool b) = KBool"
| "kind_of (CInt i) = KInt"
| "kind_of (CInt64 i) = KInt64"
| "kind_of (CFloat64 w) = KFloat64"
| "kind_of (CString s) = KString"
| "kind_of (CNum s) = KNum"
| "kind_of (COther s) = KOther"

section \<open>Dataset\<close>

datatype separator = Separator (Text: string)

record dataset =
  headers :: "string list"
  data :: "cell list list"
  tags :: "string list list"
  title :: string
  dynamicCols :: "string \<rightharpoonup> (cell list \<Rightarrow> cell)"
  formatters :: "(cell \<Rightarrow> cell) list"
  separators :: "int \<rightharpoonup> separator"

definition NewDataset :: "string list \<Rightarrow> dataset" where
  "NewDataset hs = \<lparr> headers = hs, data = [], tags = [], title = [],
     dynamicCols = Map.empty, formatters = [], separators = Map.empty \<rparr>"

definition Height :: "dataset \<Rightarrow> nat" where
  "Height ds = length (data ds)"

definition Width :: "dataset \<Rightarrow> nat" where
  "Width ds = (if length (headers ds) > 0 then length (headers ds)
               else if length (data ds) > 0 then length (data ds ! 0)
               else 0)"

text \<open>
  A mutating method returns the error (if any) and the dataset after the call: the
  receiver is updated in place in Go, and a call that returns before any assignment
  leaves it as it was.
\<close>

definition Append :: "dataset \<Rightarrow> cell list \<Rightarrow> string list \<Rightarrow> error option \<times> dataset" where
  "Append ds row rowTags =
     (if Width ds > 0 \<and> length row \<noteq> Width ds then (Some ErrInvalidDimensions, ds)
      else (None, ds\<lparr> data := data ds @ [row], tags := tags ds @ [rowTags] \<rparr>))"

definition AppendCol :: "dataset \<Rightarrow> string \<Rightarrow> cell list \<Rightarrow> error option \<times> dataset" where
  "AppendCol ds header col =
     (if length (data ds) > 0 \<and> length col \<noteq> length (data ds)
      then (Some ErrInvalidDimensions, ds)
      else
        let ds1 = (if length (data ds) = 0 \<and> length col > 0
                   then ds\<lparr> data := replicate (length col) [],
                            tags := replicate (length col) [] \<rparr>
                   else ds)
        in (None, ds1\<lparr> headers := headers ds1 @ [header],
                       data := map (\<lambda>i. (data ds1 ! i) @ [col ! i]) [0..<length (data ds1)] \<rparr>))"

text \<open>\<open>Get\<close>: the read \<open>ds.data[row][col]\<close> panics when the stored row is too short.\<close>

definition Get :: "dataset \<Rightarrow> int \<Rightarrow> int \<Rightarrow> error + cell" where
  "Get ds row col =
     (if row < 0 \<or> row \<ge> int (length (data ds)) then Inl ErrInvalidRowIndex
      else if col < 0 \<or> col \<ge> int (Width ds) then Inl ErrInvalidColumnIndex
      else if nat col < length (data ds ! nat row) then Inr (data ds ! nat row ! nat col)
      else Inl Panic)"

text \<open>
  A formatter for inputs that hold no \<open>float64\<close> cell, where the float formatter is
  never called.
\<close>

definition no_floats :: "64 word \<Rightarrow> string" where
  "no_floats w = []"

text \<open>A loop body that can fail, run over a list: the first error ends the loop.\<close>

fun mapE :: "('a \<Rightarrow> error + 'b) \<Rightarrow> 'a list \<Rightarrow> error + 'b list" where
  "mapE f [] = Inr []"
| "mapE f (x # xs) =
     (case f x of
        Inl e \<Rightarrow> Inl e
      | Inr y \<Rightarrow> (case mapE f xs of Inl e \<Rightarrow> Inl e | Inr ys \<Rightarrow> Inr (y # ys)))"



subsection \<open>Derivations\<close>

text \<open>
  The loops \<open>for i, row := range ds.data\<close> read \<open>ds.tags[i]\<close>, which panics when there
  are fewer tag lists than rows. The loop functions take the rows still to visit and the
  tag lists from the current index on, and the dataset built so far.
\<close>

fun Copy_rows :: "cell list list \<Rightarrow> string list list \<Rightarrow> dataset \<Rightarrow> error + dataset" where
  "Copy_rows [] ts result = Inr result"
| "Copy_rows (row # rows) ts result =
     (case ts of
        [] \<Rightarrow> Inl Panic
      | t # ts' \<Rightarrow>
          Copy_rows rows ts' (result\<lparr> data := data result @ [row], tags := tags result @ [t] \<rparr>))"

definition Copy :: "dataset \<Rightarrow> error + dataset" where
  "Copy ds =
     (let result = NewDataset (headers ds);
          result = result\<lparr> title := title ds \<rparr>;
          result = result\<lparr> dynamicCols := dynamicCols result ++ dynamicCols ds \<rparr>;
          result = result\<lparr> formatters := formatters result @ formatters ds \<rparr>;
          result = result\<lparr> separators := separators result ++ separators ds \<rparr>
      in Copy_rows (data ds) (tags ds) result)"



fun Subset_rows :: "nat list \<Rightarrow> cell list list \<Rightarrow> string list list \<Rightarrow> dataset \<Rightarrow> error + dataset" where
  "Subset_rows indices [] ts result = Inr result"
| "Subset_rows indices (row # rows) ts result =
     (if \<exists>idx \<in> set indices. length row \<le> idx then Inl Panic
      else case ts of
        [] \<Rightarrow> Inl Panic
      | t # ts' \<Rightarrow>
          Subset_rows indices rows ts'
            (result\<lparr> data := data result @ [map (\<lambda>idx. row ! idx) indices],
                     tags := tags result @ [t] \<rparr>))"


text \<open>\<open>rowKey\<close>: the rendering of every cell, each followed by a NUL byte.\<close>

definition rowKey :: "(64 word \<Rightarrow> string) \<Rightarrow> cell list \<Rightarrow> string" where
  "rowKey ff row = concat (map (\<lambda>v. render ff v @ [CHR 0x00]) row)"

text \<open>
  The map \<open>seen\<close> only ever stores \<open>true\<close>; it is the set of its keys. The tag list of
  a row is read only when the row is kept.
\<close>

fun RemoveDuplicates_rows ::
  "(64 word \<Rightarrow> string) \<Rightarrow> string set \<Rightarrow> cell list list \<Rightarrow> string list list \<Rightarrow> dataset
     \<Rightarrow> error + dataset" where
  "RemoveDuplicates_rows ff seen [] ts result = Inr result"
| "RemoveDuplicates_rows ff seen (row # rows) ts result =
     (let key = rowKey ff row
      in if key \<in> seen then RemoveDuplicates_rows ff seen rows (tl ts) result
         else case ts of
           [] \<Rightarrow> Inl Panic
         | t # ts' \<Rightarrow>
             RemoveDuplicates_rows ff (insert key seen) rows ts'
               (result\<lparr> data := data result @ [row], tags := tags result @ [t] \<rparr>))"

definition RemoveDuplicates :: "(64 word \<Rightarrow> string) \<Rightarrow> dataset \<Rightarrow> error + dataset" where
  "RemoveDuplicates ff ds =
     (let result = NewDataset (headers ds);
          result = result\<lparr> title := title ds \<rparr>;
          result = result\<lparr> dynamicCols := dynamicCols result ++ dynamicCols ds \<rparr>
      in RemoveDuplicates_rows ff {} (data ds) (tags ds) result)"

text \<open>\<open>Transpose\<close>: the reads \<open>ds.data[i][0]\<close> and \<open>ds.data[r][col]\<close> panic on a short row.\<close>

definition header_of_cell :: "cell \<Rightarrow> string" where
  "header_of_cell v = (case v of CString s \<Rightarrow> s | _ \<Rightarrow> [])"

definition Transpose :: "dataset \<Rightarrow> error + dataset" where
  "Transpose ds =
     (if length (data ds) = 0 then Inr (NewDataset [])
      else
        let width = Width ds in
        case (if length (headers ds) > 0
              then mapE (\<lambda>row. case row of [] \<Rightarrow> Inl Panic | v # _ \<Rightarrow> Inr (header_of_cell v))
                     (data ds)
              else Inr []) of
          Inl e \<Rightarrow> Inl e
        | Inr newHeaders \<Rightarrow>
            let result = NewDataset newHeaders;
                result = result\<lparr> title := title ds \<rparr>;
                startCol = (if length (headers ds) > 0 then 1 else 0)
            in case mapE (\<lambda>col. mapE (\<lambda>row. if col < length row then Inr (row ! col)
                                            else Inl Panic) (data ds))
                      [startCol..<width] of
                 Inl e \<Rightarrow> Inl e
               | Inr rows \<Rightarrow>
                   Inr (result\<lparr> data := data result @ rows,
                                tags := tags result @ replicate (length rows) [] \<rparr>))"


subsection \<open>StackRows and StackCols\<close>

definition StackRows :: "dataset \<Rightarrow> dataset \<Rightarrow> error + dataset" where
  "StackRows ds other =
     (if Width ds \<noteq> Width other then Inl ErrInvalidDimensions
      else case Copy ds of
        Inl e \<Rightarrow> Inl e
      | Inr result \<Rightarrow> Copy_rows (data other) (tags other) result)"

definition StackCols :: "dataset \<Rightarrow> dataset \<Rightarrow> error + dataset" where
  "StackCols ds other =
     (if Height ds \<noteq> Height other then Inl ErrInvalidDimensions
      else case Copy ds of
        Inl e \<Rightarrow> Inl e
      | Inr result \<Rightarrow>
          Inr (result\<lparr> headers := headers result @ headers other,
                       data := map (\<lambda>i. (data result ! i) @ (data other ! i))
                                 [0..<length (data result)] \<rparr>))"

text \<open>
  The indices of the rows that are the first with their key: the specification of
  deduplication.
\<close>

definition first_occurrences :: "(64 word \<Rightarrow> string) \<Rightarrow> cell list list \<Rightarrow> nat list" where
  "first_occurrences ff rows =
     filter (\<lambda>i. \<forall>j<i. rowKey ff (rows ! j) \<noteq> rowKey ff (rows ! i)) [0..<length rows]"

text \<open>
  The same indices relative to a set of keys already seen: the state of the loop of
  \<open>RemoveDuplicates\<close>.
\<close>

definition kept_indices :: "(64 word \<Rightarrow> string) \<Rightarrow> string set \<Rightarrow> cell list list \<Rightarrow> nat list" where
  "kept_indices ff seen rows =
     filter (\<lambda>i. rowKey ff (rows ! i) \<notin> seen \<and>
                 (\<forall>j<i. rowKey ff (rows ! j) \<noteq> rowKey ff (rows ! i))) [0..<length rows]"

subsection \<open>Example datasets\<close>


definition ids_example :: dataset where
  "ids_example = \<lparr> headers = [''id'', ''x''], data = [[CInt 1, CString ''a'']],
     tags = [[]], title = [], dynamicCols = Map.empty,
     formatters = [], separators = Map.empty \<rparr>"

definition names_example :: dataset where
  "names_example = \<lparr> headers = [''Name''],
     data = [[CString ''Alice''], [CString ''Bob''], [CString ''Alice'']],
     tags = [[], [], []], title = [], dynamicCols = Map.empty,
     formatters = [], separators = Map.empty \<rparr>"

definition grid_example :: dataset where
  "grid_example = \<lparr> headers = [],
     data = [[CInt 1, CInt 2], [CInt 3, CInt 4]],
     tags = [[], []], title = [], dynamicCols = Map.empty,
     formatters = [], separators = Map.empty \<rparr>"


subsection \<open>Sort\<close>

text \<open>
  \<open>Sort\<close> orders the row indices with \<open>slices.SortFunc\<close>, which is library code: the
  pattern-defeating quicksort of file \<open>zsortanyfunc.go\<close> of package \<open>slices\<close>, modelled
  here after the library. The slice is a list, and every function that writes to it
  returns the list after the call; the slice \<open>data\<close> is the list \<open>xs\<close>. \<open>exchange\<close> is the assignment
  \<open>data[i], data[j] = data[j], data[i]\<close>.
\<close>

definition exchange :: "'a list \<Rightarrow> nat \<Rightarrow> nat \<Rightarrow> 'a list" where
  "exchange xs i j = xs[i := xs ! j, j := xs ! i]"

text \<open>
  \<open>insertionSortCmpFunc\<close>:
  \<^verbatim>\<open>for i := a + 1; i < b; i++ {
    for j := i; j > a && (cmp(data[j], data[j-1]) < 0); j-- {
      data[j], data[j-1] = data[j-1], data[j] } }\<close>
  \<open>bubble\<close> is the inner loop, entered at \<open>j\<close>.
\<close>

fun bubble :: "('a \<Rightarrow> 'a \<Rightarrow> int) \<Rightarrow> nat \<Rightarrow> 'a list \<Rightarrow> nat \<Rightarrow> 'a list" where
  "bubble cmp a xs 0 = xs"
| "bubble cmp a xs (Suc j) =
     (if Suc j > a \<and> cmp (xs ! Suc j) (xs ! j) < 0
      then bubble cmp a (exchange xs (Suc j) j) j
      else xs)"

definition insertionSortCmpFunc ::
  "'a list \<Rightarrow> nat \<Rightarrow> nat \<Rightarrow> ('a \<Rightarrow> 'a \<Rightarrow> int) \<Rightarrow> 'a list" where
  "insertionSortCmpFunc xs a b cmp = foldl (bubble cmp a) xs [a + 1..<b]"

text \<open>
  \<open>siftDownCmpFunc\<close> and \<open>heapSortCmpFunc\<close>. The loop variable \<open>root\<close> of \<open>siftDownCmpFunc\<close>
  starts as \<open>lo\<close>; the recursive call is the next turn of its loop.
\<close>

function siftDownCmpFunc ::
  "'a list \<Rightarrow> nat \<Rightarrow> nat \<Rightarrow> nat \<Rightarrow> ('a \<Rightarrow> 'a \<Rightarrow> int) \<Rightarrow> 'a list" where
  "siftDownCmpFunc xs root hi first cmp =
     (let child = 2 * root + 1 in
      if child \<ge> hi then xs
      else
        let child = (if child + 1 < hi
                        \<and> cmp (xs ! (first + child)) (xs ! (first + child + 1)) < 0
                     then child + 1 else child)
        in if \<not> (cmp (xs ! (first + root)) (xs ! (first + child)) < 0) then xs
           else siftDownCmpFunc (exchange xs (first + root) (first + child)) child hi first cmp)"
  by pat_completeness auto
termination
  by (relation "measure (\<lambda>(xs, root, hi, first, cmp). hi - root)") (auto simp: Let_def)

declare siftDownCmpFunc.simps [simp del]

definition heapSortCmpFunc ::
  "'a list \<Rightarrow> nat \<Rightarrow> nat \<Rightarrow> ('a \<Rightarrow> 'a \<Rightarrow> int) \<Rightarrow> 'a list" where
  "heapSortCmpFunc xs a b cmp =
     (let first = a; lo = 0; hi = b - a;
          xs = foldl (\<lambda>xs i. siftDownCmpFunc xs i hi first cmp) xs
                   (rev [0..<Suc ((hi - 1) div 2)])
      in foldl (\<lambda>xs i. siftDownCmpFunc (exchange xs first (first + i)) lo i first cmp) xs
           (rev [0..<hi]))"

text \<open>
  \<open>choosePivotCmpFunc\<close> with \<open>order2CmpFunc\<close>, \<open>medianCmpFunc\<close> and
  \<open>medianAdjacentCmpFunc\<close>; the counter \<open>*swaps\<close> is passed in and returned.
\<close>

datatype sortedHint = unknownHint | increasingHint | decreasingHint

definition order2CmpFunc ::
  "'a list \<Rightarrow> nat \<Rightarrow> nat \<Rightarrow> nat \<Rightarrow> ('a \<Rightarrow> 'a \<Rightarrow> int) \<Rightarrow> nat \<times> nat \<times> nat" where
  "order2CmpFunc xs a b swaps cmp =
     (if cmp (xs ! b) (xs ! a) < 0 then (b, a, swaps + 1) else (a, b, swaps))"

definition medianCmpFunc ::
  "'a list \<Rightarrow> nat \<Rightarrow> nat \<Rightarrow> nat \<Rightarrow> nat \<Rightarrow> ('a \<Rightarrow> 'a \<Rightarrow> int) \<Rightarrow> nat \<times> nat" where
  "medianCmpFunc xs a b c swaps cmp =
     (let (a, b, swaps) = order2CmpFunc xs a b swaps cmp;
          (b, c, swaps) = order2CmpFunc xs b c swaps cmp;
          (a, b, swaps) = order2CmpFunc xs a b swaps cmp
      in (b, swaps))"

definition medianAdjacentCmpFunc ::
  "'a list \<Rightarrow> nat \<Rightarrow> nat \<Rightarrow> ('a \<Rightarrow> 'a \<Rightarrow> int) \<Rightarrow> nat \<times> nat" where
  "medianAdjacentCmpFunc xs a swaps cmp = medianCmpFunc xs (a - 1) a (a + 1) swaps cmp"

definition choosePivotCmpFunc ::
  "'a list \<Rightarrow> nat \<Rightarrow> nat \<Rightarrow> ('a \<Rightarrow> 'a \<Rightarrow> int) \<Rightarrow> nat \<times> sortedHint" where
  "choosePivotCmpFunc xs a b cmp =
     (let shortestNinther = 50; maxSwaps = 4 * 3;
          l = b - a;
          swaps = 0;
          i = a + l div 4 * 1;
          j = a + l div 4 * 2;
          k = a + l div 4 * 3;
          (j, swaps) =
            (if l \<ge> 8
             then
               let (i, j, k, swaps) =
                     (if l \<ge> shortestNinther
                      then
                        let (i, swaps) = medianAdjacentCmpFunc xs i swaps cmp;
                            (j, swaps) = medianAdjacentCmpFunc xs j swaps cmp;
                            (k, swaps) = medianAdjacentCmpFunc xs k swaps cmp
                        in (i, j, k, swaps)
                      else (i, j, k, swaps))
               in medianCmpFunc xs i j k swaps cmp
             else (j, swaps))
      in if swaps = 0 then (j, increasingHint)
         else if swaps = maxSwaps then (j, decreasingHint)
         else (j, unknownHint))"

text \<open>\<open>reverseRangeCmpFunc\<close>; \<open>reverseRange_loop\<close> is its loop \<open>for i < j\<close>.\<close>

function reverseRange_loop :: "'a list \<Rightarrow> nat \<Rightarrow> nat \<Rightarrow> 'a list" where
  "reverseRange_loop xs i j =
     (if i < j then reverseRange_loop (exchange xs i j) (i + 1) (j - 1) else xs)"
  by pat_completeness auto
termination
  by (relation "measure (\<lambda>(xs, i, j). j - i)") auto

declare reverseRange_loop.simps [simp del]

definition reverseRangeCmpFunc ::
  "'a list \<Rightarrow> nat \<Rightarrow> nat \<Rightarrow> ('a \<Rightarrow> 'a \<Rightarrow> int) \<Rightarrow> 'a list" where
  "reverseRangeCmpFunc xs a b cmp = reverseRange_loop xs a (b - 1)"

text \<open>
  \<open>partialInsertionSortCmpFunc\<close> returns the slice and whether it is sorted at the end.
  \<open>ascending_run\<close> is the loop \<open>for i < b && !(cmp(data[i], data[i-1]) < 0) { i++ }\<close>. The
  loop that shifts the smaller element to the left runs \<open>for j := i - 1; j >= 1; j--\<close>,
  which is \<open>bubble\<close> with the lower bound 0; \<open>shift_right\<close> is the loop that shifts the
  greater element to the right, entered at \<open>j\<close>. \<open>partialInsertionSort_loop\<close> takes the
  number of steps left of the \<open>maxSteps\<close>.
\<close>

function ascending_run :: "('a \<Rightarrow> 'a \<Rightarrow> int) \<Rightarrow> 'a list \<Rightarrow> nat \<Rightarrow> nat \<Rightarrow> nat" where
  "ascending_run cmp xs i b =
     (if i < b \<and> \<not> (cmp (xs ! i) (xs ! (i - 1)) < 0)
      then ascending_run cmp xs (i + 1) b else i)"
  by pat_completeness auto
termination
  by (relation "measure (\<lambda>(cmp, xs, i, b). b - i)") auto

declare ascending_run.simps [simp del]

function shift_right :: "('a \<Rightarrow> 'a \<Rightarrow> int) \<Rightarrow> 'a list \<Rightarrow> nat \<Rightarrow> nat \<Rightarrow> 'a list" where
  "shift_right cmp xs j b =
     (if j < b
      then (if \<not> (cmp (xs ! j) (xs ! (j - 1)) < 0) then xs
            else shift_right cmp (exchange xs j (j - 1)) (j + 1) b)
      else xs)"
  by pat_completeness auto
termination
  by (relation "measure (\<lambda>(cmp, xs, j, b). b - j)") auto

declare shift_right.simps [simp del]

fun partialInsertionSort_loop ::
  "nat \<Rightarrow> 'a list \<Rightarrow> nat \<Rightarrow> nat \<Rightarrow> nat \<Rightarrow> ('a \<Rightarrow> 'a \<Rightarrow> int) \<Rightarrow> 'a list \<times> bool" where
  "partialInsertionSort_loop 0 xs i a b cmp = (xs, False)"
| "partialInsertionSort_loop (Suc steps) xs i a b cmp =
     (let shortestShifting = 50;
          i = ascending_run cmp xs i b
      in if i = b then (xs, True)
         else if b - a < shortestShifting then (xs, False)
         else
           let xs = exchange xs i (i - 1);
               xs = (if i - a \<ge> 2 then bubble cmp 0 xs (i - 1) else xs);
               xs = (if b - i \<ge> 2 then shift_right cmp xs (i + 1) b else xs)
           in partialInsertionSort_loop steps xs i a b cmp)"

definition partialInsertionSortCmpFunc ::
  "'a list \<Rightarrow> nat \<Rightarrow> nat \<Rightarrow> ('a \<Rightarrow> 'a \<Rightarrow> int) \<Rightarrow> 'a list \<times> bool" where
  "partialInsertionSortCmpFunc xs a b cmp =
     (let maxSteps = 5 in partialInsertionSort_loop maxSteps xs (a + 1) a b cmp)"

text \<open>
  \<open>breakPatternsCmpFunc\<close>. \<open>bits_Len\<close> is \<open>bits.Len\<close>, the number of bits of a number. The
  pseudo-random generator of the library, the method \<open>Next\<close> of type \<open>xorshift\<close> (a
  \<open>uint64\<close>), is the parameter \<open>next\<close> of the sorting functions.
\<close>

fun bits_Len :: "nat \<Rightarrow> nat" where
  "bits_Len n = (if n = 0 then 0 else Suc (bits_Len (n div 2)))"

declare bits_Len.simps [simp del]

definition nextPowerOfTwo :: "nat \<Rightarrow> nat" where
  "nextPowerOfTwo len = 2 ^ bits_Len len"

definition breakPatternsCmpFunc ::
  "(64 word \<Rightarrow> 64 word) \<Rightarrow> 'a list \<Rightarrow> nat \<Rightarrow> nat \<Rightarrow> ('a \<Rightarrow> 'a \<Rightarrow> int) \<Rightarrow> 'a list" where
  "breakPatternsCmpFunc next xs a b cmp =
     (let len = b - a in
      if len \<ge> 8
      then
        let random = (word_of_nat len :: 64 word);
            modulus = nextPowerOfTwo len;
            idx = a + (len div 4) * 2 - 1
        in fst (foldl (\<lambda>(xs, random) i.
                  let random = next random;
                      other = unat random mod modulus;
                      other = (if other \<ge> len then other - len else other)
                  in (exchange xs (idx - 1 + i) (a + other), random))
                (xs, random) [0..<3])
      else xs)"

text \<open>
  \<open>partitionEqualCmpFunc\<close> and \<open>partitionCmpFunc\<close>. The index \<open>j\<close> is an \<open>int\<close>, as in Go:
  it can fall below \<open>i\<close> by one. \<open>partition_up\<close> and \<open>partition_down\<close> are the loops
  \<open>for i <= j && (cmp(data[i], data[a]) < 0) { i++ }\<close> and
  \<open>for i <= j && !(cmp(data[j], data[a]) < 0) { j-- }\<close>, and \<open>partition_loop\<close> is the loop
  \<open>for { ... }\<close> that follows them; \<open>equal_up\<close>, \<open>equal_down\<close> and
  \<open>partitionEqual_loop\<close> are the loops of \<open>partitionEqualCmpFunc\<close>.
\<close>

function partition_up :: "('a \<Rightarrow> 'a \<Rightarrow> int) \<Rightarrow> 'a list \<Rightarrow> nat \<Rightarrow> nat \<Rightarrow> int \<Rightarrow> nat" where
  "partition_up cmp xs a i j =
     (if int i \<le> j \<and> cmp (xs ! i) (xs ! a) < 0
      then partition_up cmp xs a (i + 1) j else i)"
  by pat_completeness auto
termination
  by (relation "measure (\<lambda>(cmp, xs, a, i, j). nat (j + 1 - int i))") auto

declare partition_up.simps [simp del]

function partition_down :: "('a \<Rightarrow> 'a \<Rightarrow> int) \<Rightarrow> 'a list \<Rightarrow> nat \<Rightarrow> nat \<Rightarrow> int \<Rightarrow> int" where
  "partition_down cmp xs a i j =
     (if int i \<le> j \<and> \<not> (cmp (xs ! nat j) (xs ! a) < 0)
      then partition_down cmp xs a i (j - 1) else j)"
  by pat_completeness auto
termination
  by (relation "measure (\<lambda>(cmp, xs, a, i, j). nat (j + 1 - int i))") auto

declare partition_down.simps [simp del]

function partition_loop ::
  "('a \<Rightarrow> 'a \<Rightarrow> int) \<Rightarrow> 'a list \<Rightarrow> nat \<Rightarrow> nat \<Rightarrow> int \<Rightarrow> 'a list \<times> int" where
  "partition_loop cmp xs a i j =
     (let i = partition_up cmp xs a i j;
          j = partition_down cmp xs a i j
      in if int i > j then (xs, j)
         else partition_loop cmp (exchange xs i (nat j)) a (i + 1) (j - 1))"
  by pat_completeness auto

definition partitionCmpFunc ::
  "'a list \<Rightarrow> nat \<Rightarrow> nat \<Rightarrow> nat \<Rightarrow> ('a \<Rightarrow> 'a \<Rightarrow> int) \<Rightarrow> 'a list \<times> nat \<times> bool" where
  "partitionCmpFunc xs a b pivot cmp =
     (let xs = exchange xs a pivot;
          i = a + 1;
          j = int b - 1;
          i = partition_up cmp xs a i j;
          j = partition_down cmp xs a i j
      in if int i > j then (exchange xs (nat j) a, nat j, True)
         else
           let xs = exchange xs i (nat j);
               (xs, j) = partition_loop cmp xs a (i + 1) (j - 1)
           in (exchange xs (nat j) a, nat j, False))"

function equal_up :: "('a \<Rightarrow> 'a \<Rightarrow> int) \<Rightarrow> 'a list \<Rightarrow> nat \<Rightarrow> nat \<Rightarrow> int \<Rightarrow> nat" where
  "equal_up cmp xs a i j =
     (if int i \<le> j \<and> \<not> (cmp (xs ! a) (xs ! i) < 0)
      then equal_up cmp xs a (i + 1) j else i)"
  by pat_completeness auto
termination
  by (relation "measure (\<lambda>(cmp, xs, a, i, j). nat (j + 1 - int i))") auto

declare equal_up.simps [simp del]

function equal_down :: "('a \<Rightarrow> 'a \<Rightarrow> int) \<Rightarrow> 'a list \<Rightarrow> nat \<Rightarrow> nat \<Rightarrow> int \<Rightarrow> int" where
  "equal_down cmp xs a i j =
     (if int i \<le> j \<and> cmp (xs ! a) (xs ! nat j) < 0
      then equal_down cmp xs a i (j - 1) else j)"
  by pat_completeness auto
termination
  by (relation "measure (\<lambda>(cmp, xs, a, i, j). nat (j + 1 - int i))") auto

declare equal_down.simps [simp del]

function partitionEqual_loop ::
  "('a \<Rightarrow> 'a \<Rightarrow> int) \<Rightarrow> 'a list \<Rightarrow> nat \<Rightarrow> nat \<Rightarrow> int \<Rightarrow> 'a list \<times> nat" where
  "partitionEqual_loop cmp xs a i j =
     (let i = equal_up cmp xs a i j;
          j = equal_down cmp xs a i j
      in if int i > j then (xs, i)
         else partitionEqual_loop cmp (exchange xs i (nat j)) a (i + 1) (j - 1))"
  by pat_completeness auto

definition partitionEqualCmpFunc ::
  "'a list \<Rightarrow> nat \<Rightarrow> nat \<Rightarrow> nat \<Rightarrow> ('a \<Rightarrow> 'a \<Rightarrow> int) \<Rightarrow> 'a list \<times> nat" where
  "partitionEqualCmpFunc xs a b pivot cmp =
     (let xs = exchange xs a pivot;
          i = a + 1;
          j = int b - 1
      in partitionEqual_loop cmp xs a i j)"

text \<open>
  \<open>pdqsortCmpFunc\<close> sorts \<open>data[a:b]\<close>. Its loop carries \<open>a\<close>, \<open>b\<close>, \<open>limit\<close>, \<open>wasBalanced\<close>
  and \<open>wasPartitioned\<close>; a call from outside starts it with both flags true. A call of
  the function below with other arguments in the last five places is the next turn of
  the loop, and the inner call with both flags true is the recursive call of the Go
  function.
\<close>

function pdqsortCmpFunc ::
  "(64 word \<Rightarrow> 64 word) \<Rightarrow> ('a \<Rightarrow> 'a \<Rightarrow> int) \<Rightarrow> 'a list \<Rightarrow> nat \<Rightarrow> nat \<Rightarrow> nat \<Rightarrow> bool \<Rightarrow> bool
     \<Rightarrow> 'a list" where
  "pdqsortCmpFunc next cmp xs a b limit wasBalanced wasPartitioned =
     (let maxInsertion = 12;
          len = b - a
      in if len \<le> maxInsertion then insertionSortCmpFunc xs a b cmp
         else if limit = 0 then heapSortCmpFunc xs a b cmp
         else
           let xs = (if \<not> wasBalanced then breakPatternsCmpFunc next xs a b cmp else xs);
               limit = (if \<not> wasBalanced then limit - 1 else limit);
               pivot = fst (choosePivotCmpFunc xs a b cmp);
               hint = snd (choosePivotCmpFunc xs a b cmp);
               xs = (if hint = decreasingHint then reverseRangeCmpFunc xs a b cmp else xs);
               pivot = (if hint = decreasingHint then (b - 1) - (pivot - a) else pivot);
               hint = (if hint = decreasingHint then increasingHint else hint);
               likelySorted = (wasBalanced \<and> wasPartitioned \<and> hint = increasingHint);
               isSorted = (likelySorted \<and> snd (partialInsertionSortCmpFunc xs a b cmp));
               xs = (if likelySorted then fst (partialInsertionSortCmpFunc xs a b cmp)
                       else xs)
           in if isSorted then xs
              else if a > 0 \<and> \<not> (cmp (xs ! (a - 1)) (xs ! pivot) < 0)
              then
                pdqsortCmpFunc next cmp (fst (partitionEqualCmpFunc xs a b pivot cmp))
                  (snd (partitionEqualCmpFunc xs a b pivot cmp)) b limit
                  wasBalanced wasPartitioned
              else
                let xs' = fst (partitionCmpFunc xs a b pivot cmp);
                    mid = fst (snd (partitionCmpFunc xs a b pivot cmp));
                    alreadyPartitioned = snd (snd (partitionCmpFunc xs a b pivot cmp));
                    leftLen = mid - a;
                    rightLen = b - mid;
                    balanceThreshold = len div 8
                in if leftLen < rightLen
                   then pdqsortCmpFunc next cmp
                          (pdqsortCmpFunc next cmp xs' a mid limit True True)
                          (mid + 1) b limit (leftLen \<ge> balanceThreshold) alreadyPartitioned
                   else pdqsortCmpFunc next cmp
                          (pdqsortCmpFunc next cmp xs' (mid + 1) b limit True True)
                          a mid limit (rightLen \<ge> balanceThreshold) alreadyPartitioned)"
  by pat_completeness auto

text \<open>\<open>slices.SortFunc\<close>.\<close>

definition SortFunc ::
  "(64 word \<Rightarrow> 64 word) \<Rightarrow> 'a list \<Rightarrow> ('a \<Rightarrow> 'a \<Rightarrow> int) \<Rightarrow> 'a list" where
  "SortFunc next x cmp =
     (let n = length x in pdqsortCmpFunc next cmp x 0 n (bits_Len n) True True)"

text \<open>
  The comparison function of \<open>Sort\<close> on two row indices. It reads
  \<open>result.data[i][colIndex]\<close>, which panics on a short row; with two rows or more
  every row is compared at least once.
\<close>

definition Sort_cmp :: "(64 word \<Rightarrow> string) \<Rightarrow> cell list list \<Rightarrow> nat \<Rightarrow> bool \<Rightarrow> nat \<Rightarrow> nat \<Rightarrow> int" where
  "Sort_cmp ff rows col reverse i j =
     (let c = compareAny ff (rows ! i ! col) (rows ! j ! col)
      in if reverse then - c else c)"

definition Sort ::
  "(64 word \<Rightarrow> 64 word) \<Rightarrow> (64 word \<Rightarrow> string) \<Rightarrow> dataset \<Rightarrow> int \<Rightarrow> bool \<Rightarrow> error + dataset" where
  "Sort next ff ds colIndex reverse =
     (if colIndex < 0 \<or> colIndex \<ge> int (Width ds) then Inl ErrInvalidColumnIndex
      else case Copy ds of
        Inl e \<Rightarrow> Inl e
      | Inr result \<Rightarrow>
          let col = nat colIndex; rows = data result
          in if 2 \<le> length rows \<and> (\<exists>row \<in> set rows. length row \<le> col) then Inl Panic
             else
               let indices = SortFunc next [0..<length rows] (Sort_cmp ff rows col reverse)
               in Inr (result\<lparr> data := map (\<lambda>idx. rows ! idx) indices,
                               tags := map (\<lambda>idx. tags result ! idx) indices \<rparr>))"


subsection \<open>Insertion sort, functionally\<close>

text \<open>
  One run of the inner loop of \<open>insertionSortCmpFunc\<close> moves the element \<open>x\<close> to the
  left past every element it is less than. On the elements to the left of \<open>x\<close>, nearest
  first, this is \<open>insert_left\<close>.
\<close>

fun insert_left :: "('a \<Rightarrow> 'a \<Rightarrow> int) \<Rightarrow> 'a \<Rightarrow> 'a list \<Rightarrow> 'a list" where
  "insert_left cmp x [] = [x]"
| "insert_left cmp x (p # rs) =
     (if cmp x p < 0 then p # insert_left cmp x rs else x # p # rs)"

text \<open>\<open>i\<close> stands before \<open>j\<close> in a list where each occurs once.\<close>

definition comes_before :: "'a \<Rightarrow> 'a \<Rightarrow> 'a list \<Rightarrow> bool" where
  "comes_before i j xs \<longleftrightarrow> filter (\<lambda>z. z = i \<or> z = j) xs = [i, j]"

definition mixed_example :: dataset where
  "mixed_example = \<lparr> headers = [''v''],
     data = [[CInt 2], [CInt 10], [CString ''1x'']],
     tags = [[], [], []], title = [], dynamicCols = Map.empty,
     formatters = [], separators = Map.empty \<rparr>"

definition ages_example :: dataset where
  "ages_example = \<lparr> headers = [''Name'', ''Age''],
     data = [[CString ''Alice'', CInt 30], [CString ''Bob'', CInt 25],
             [CString ''Charlie'', CInt 35]],
     tags = [[''a''], [''b''], [''c'']], title = [], dynamicCols = Map.empty,
     formatters = [], separators = Map.empty \<rparr>"

text \<open>
  The order in which \<open>Sort\<close> places the row indices of a dataset of at most 12 rows.
\<close>

definition Sort_order :: "(64 word \<Rightarrow> string) \<Rightarrow> cell list list \<Rightarrow> nat \<Rightarrow> bool \<Rightarrow> nat list" where
  "Sort_order ff rows col reverse =
     insertionSortCmpFunc [0..<length rows] 0 (length rows) (Sort_cmp ff rows col reverse)"

text \<open>
  Thirteen rows whose first column holds 0 and 1 in turn; the second column numbers the
  rows.
\<close>

definition ties_example :: dataset where
  "ties_example = \<lparr> headers = [''k'', ''id''],
     data = [[CInt 0, CInt 0], [CInt 1, CInt 1], [CInt 0, CInt 2], [CInt 1, CInt 3],
             [CInt 0, CInt 4], [CInt 1, CInt 5], [CInt 0, CInt 6], [CInt 1, CInt 7],
             [CInt 0, CInt 8], [CInt 1, CInt 9], [CInt 0, CInt 10], [CInt 1, CInt 11],
             [CInt 0, CInt 12]],
     tags = [[], [], [], [], [], [], [], [], [], [], [], [], []],
     title = [], dynamicCols = Map.empty, formatters = [], separators = Map.empty \<rparr>"


section \<open>Strings as bytes\<close>

text \<open>
  A Go string holds bytes; the functions of the packages \<open>unicode/utf8\<close>, \<open>unicode\<close>,
  \<open>strings\<close> and \<open>fmt\<close> that the codecs call read them as UTF-8. They are library code,
  modelled here after the library.
\<close>

definition isASCII :: "string \<Rightarrow> bool" where
  "isASCII s = list_all (\<lambda>c. (of_char c :: nat) < 128) s"

subsection \<open>Package unicode/utf8\<close>

definition RuneError :: nat where
  "RuneError = 0xFFFD"

text \<open>
  \<open>utf8.DecodeRuneInString\<close>: the first code point of a string and the number of bytes it
  takes. A byte that starts no valid encoding decodes to \<open>RuneError\<close> of width 1. The
  bits of a code point are assembled with shifts and masks in Go; the same number is
  written here with \<open>mod\<close> and multiplication.
\<close>

fun DecodeRuneInString :: "string \<Rightarrow> nat \<times> nat" where
  "DecodeRuneInString [] = (RuneError, 0)"
| "DecodeRuneInString (c # cs) =
     (let s0 = (of_char c :: nat) in
      if s0 < 0x80 then (s0, 1)
      else if s0 < 0xC2 \<or> 0xF4 < s0 then (RuneError, 1)
      else
        let sz = (if s0 < 0xE0 then 2 else if s0 < 0xF0 then 3 else 4 :: nat);
            lo = (if s0 = 0xE0 then 0xA0 else if s0 = 0xF0 then 0x90 else 0x80 :: nat);
            hi = (if s0 = 0xED then 0x9F else if s0 = 0xF4 then 0x8F else 0xBF :: nat)
        in if Suc (length cs) < sz then (RuneError, 1)
           else
             let s1 = (of_char (cs ! 0) :: nat) in
             if s1 < lo \<or> hi < s1 then (RuneError, 1)
             else if sz \<le> 2 then (s0 mod 32 * 64 + s1 mod 64, 2)
             else
               let s2 = (of_char (cs ! 1) :: nat) in
               if s2 < 0x80 \<or> 0xBF < s2 then (RuneError, 1)
               else if sz \<le> 3 then (s0 mod 16 * 4096 + s1 mod 64 * 64 + s2 mod 64, 3)
               else
                 let s3 = (of_char (cs ! 2) :: nat) in
                 if s3 < 0x80 \<or> 0xBF < s3 then (RuneError, 1)
                 else (s0 mod 8 * 262144 + s1 mod 64 * 4096 + s2 mod 64 * 64 + s3 mod 64, 4))"

declare DecodeRuneInString.simps(2) [simp del]

text \<open>
  \<open>utf8.RuneCountInString\<close>: the number of code points. Its loop advances by the width
  that \<open>DecodeRuneInString\<close> reports at the current position.
\<close>

fun RuneCountInString :: "string \<Rightarrow> nat" where
  "RuneCountInString [] = 0"
| "RuneCountInString (c # cs) =
     Suc (RuneCountInString (drop (snd (DecodeRuneInString (c # cs)) - 1) cs))"

definition RuneStart :: "char \<Rightarrow> bool" where
  "RuneStart b = ((of_char b :: nat) div 64 \<noteq> 2)"

text \<open>
  \<open>utf8.DecodeLastRuneInString\<close>: the last code point of a string and its width. The
  loop \<open>for start--; start >= lim; start--\<close> walks back over at most three bytes to a byte
  that can start an encoding; \<open>lastRuneStart\<close> is this loop, entered at \<open>start\<close>.
\<close>

function lastRuneStart :: "string \<Rightarrow> int \<Rightarrow> int \<Rightarrow> int" where
  "lastRuneStart s lim start =
     (if start \<ge> lim
      then (if RuneStart (s ! nat start) then start else lastRuneStart s lim (start - 1))
      else start)"
  by pat_completeness auto
termination
  by (relation "measure (\<lambda>(s, lim, start). nat (start - lim + 1))") auto

declare lastRuneStart.simps [simp del]

definition DecodeLastRuneInString :: "string \<Rightarrow> nat \<times> nat" where
  "DecodeLastRuneInString s =
     (let n = length s in
      if n = 0 then (RuneError, 0)
      else
        let start = int n - 1;
            r = (of_char (s ! nat start) :: nat)
        in if r < 0x80 then (r, 1)
           else
             let lim = int n - 4;
                 lim = (if lim < 0 then 0 else lim);
                 start = lastRuneStart s lim (start - 1);
                 start = (if start < 0 then 0 else start);
                 (r, size) = DecodeRuneInString (drop (nat start) s)
             in if start + int size \<noteq> int n then (RuneError, 1) else (r, size))"

subsection \<open>Package unicode\<close>

text \<open>\<open>unicode.IsSpace\<close>: the code points with the Unicode property White_Space.\<close>

definition IsSpace :: "nat \<Rightarrow> bool" where
  "IsSpace r =
     (if r \<le> 0xFF then r \<in> {0x09, 0x0A, 0x0B, 0x0C, 0x0D, 0x20, 0x85, 0xA0}
      else r = 0x1680 \<or> (0x2000 \<le> r \<and> r \<le> 0x200A) \<or> r = 0x2028 \<or> r = 0x2029
           \<or> r = 0x202F \<or> r = 0x205F \<or> r = 0x3000)"

subsection \<open>Package strings\<close>

text \<open>
  \<open>indexFunc\<close>: the byte index of the first code point \<open>r\<close> with \<open>f(r) == truth\<close>, or -1.
  The loop \<open>for i, r := range s\<close> decodes like \<open>DecodeRuneInString\<close>; \<open>indexFunc_loop\<close>
  takes the rest of the string from index \<open>i\<close> on.
\<close>

fun indexFunc_loop :: "(nat \<Rightarrow> bool) \<Rightarrow> bool \<Rightarrow> string \<Rightarrow> nat \<Rightarrow> int" where
  "indexFunc_loop f truth [] i = - 1"
| "indexFunc_loop f truth (c # cs) i =
     (if f (fst (DecodeRuneInString (c # cs))) = truth then int i
      else indexFunc_loop f truth (drop (snd (DecodeRuneInString (c # cs)) - 1) cs)
             (i + snd (DecodeRuneInString (c # cs))))"

definition indexFunc :: "string \<Rightarrow> (nat \<Rightarrow> bool) \<Rightarrow> bool \<Rightarrow> int" where
  "indexFunc s f truth = indexFunc_loop f truth s 0"

text \<open>
  \<open>lastIndexFunc\<close>: the byte index of the last code point \<open>r\<close> with \<open>f(r) == truth\<close>, or
  -1. \<open>lastIndexFunc_loop\<close> is the loop \<open>for i := len(s); i > 0;\<close> on the prefix \<open>s[0:i]\<close>
  still to visit.
\<close>

function lastIndexFunc_loop :: "(nat \<Rightarrow> bool) \<Rightarrow> bool \<Rightarrow> string \<Rightarrow> int" where
  "lastIndexFunc_loop f truth pre =
     (if length pre > 0
      then
        let r = fst (DecodeLastRuneInString pre);
            size = snd (DecodeLastRuneInString pre);
            i = length pre - size
        in if f r = truth then int i
           else lastIndexFunc_loop f truth (take i pre)
      else - 1)"
  by pat_completeness auto
termination
proof (relation "measure (\<lambda>(f, truth, pre). length pre)")
  show "wf (measure (\<lambda>(f, truth, pre). length pre))" by simp
next
  fix f :: "nat \<Rightarrow> bool" and truth :: bool and pre :: string and r size i
  assume ne: "0 < length pre" and sz: "size = snd (DecodeLastRuneInString pre)"
    and i: "i = length pre - size"
  have dec: "0 < snd (DecodeRuneInString xs)" if "xs \<noteq> []" for xs
    using that by (cases xs) (auto simp: DecodeRuneInString.simps(2) Let_def)
  have at_most: "lastRuneStart s lim start \<le> start" for s lim start
  proof (induction s lim start rule: lastRuneStart.induct)
    case (1 s lim start)
    then show ?case by (subst lastRuneStart.simps) auto
  qed
  define lim where "lim = (if int (length pre) - 4 < 0 then 0 else int (length pre) - 4)"
  define st where "st = lastRuneStart pre lim (int (length pre) - 1 - 1)"
  define st' where "st' = (if st < 0 then 0 else st)"
  have "st \<le> int (length pre) - 1 - 1" unfolding st_def by (rule at_most)
  with ne have "nat st' < length pre" unfolding st'_def by (cases "st < 0") auto
  then have "drop (nat st') pre \<noteq> []" by simp
  then have pos: "0 < snd (DecodeRuneInString (drop (nat st') pre))" by (rule dec)
  have eq: "DecodeLastRuneInString pre =
      (if (of_char (pre ! nat (int (length pre) - 1)) :: nat) < 0x80
       then (of_char (pre ! nat (int (length pre) - 1)), 1)
       else (case DecodeRuneInString (drop (nat st') pre) of
               (r, size) \<Rightarrow> if st' + int size \<noteq> int (length pre) then (RuneError, 1)
                            else (r, size)))"
    using ne unfolding DecodeLastRuneInString_def Let_def lim_def st_def st'_def by simp
  have "0 < snd (DecodeLastRuneInString pre)"
    unfolding eq using pos by (auto split: prod.splits)
  with ne sz i show "((f, truth, take i pre), (f, truth, pre))
      \<in> measure (\<lambda>(f, truth, pre). length pre)"
    by simp
qed

declare lastIndexFunc_loop.simps [simp del]

definition lastIndexFunc :: "string \<Rightarrow> (nat \<Rightarrow> bool) \<Rightarrow> bool \<Rightarrow> int" where
  "lastIndexFunc s f truth = lastIndexFunc_loop f truth s"

definition TrimLeftFunc :: "string \<Rightarrow> (nat \<Rightarrow> bool) \<Rightarrow> string" where
  "TrimLeftFunc s f =
     (let i = indexFunc s f False in if i = - 1 then [] else drop (nat i) s)"

definition TrimRightFunc :: "string \<Rightarrow> (nat \<Rightarrow> bool) \<Rightarrow> string" where
  "TrimRightFunc s f =
     (let i = lastIndexFunc s f False;
          i = (if i \<ge> 0 \<and> (of_char (s ! nat i) :: nat) \<ge> 0x80
               then i + int (snd (DecodeRuneInString (drop (nat i) s)))
               else i + 1)
      in take (nat i) s)"

definition TrimFunc :: "string \<Rightarrow> (nat \<Rightarrow> bool) \<Rightarrow> string" where
  "TrimFunc s f = TrimRightFunc (TrimLeftFunc s f) f"

text \<open>The table \<open>asciiSpace\<close>: tab, line feed, vertical tab, form feed, carriage return, space.\<close>

definition asciiSpace :: "char \<Rightarrow> bool" where
  "asciiSpace c = ((of_char c :: nat) \<in> {9, 10, 11, 12, 13, 32})"

text \<open>
  \<open>strings.TrimSpace\<close>. The second loop looks for the last byte that is not ASCII white
  space; \<open>TrimSpace_stop s stop\<close> is that loop on \<open>s[start:]\<close>, entered at \<open>stop\<close>. Either
  loop hands over to the functions above at the first byte outside ASCII.
\<close>

fun TrimSpace_stop :: "string \<Rightarrow> nat \<Rightarrow> string" where
  "TrimSpace_stop s 0 = []"
| "TrimSpace_stop s (Suc k) =
     (if (of_char (s ! k) :: nat) \<ge> 0x80 then TrimRightFunc (take (Suc k) s) IsSpace
      else if asciiSpace (s ! k) then TrimSpace_stop s k
      else take (Suc k) s)"

fun TrimSpace :: "string \<Rightarrow> string" where
  "TrimSpace [] = []"
| "TrimSpace (c # cs) =
     (if (of_char c :: nat) \<ge> 0x80 then TrimFunc (c # cs) IsSpace
      else if asciiSpace c then TrimSpace cs
      else TrimSpace_stop (c # cs) (length (c # cs)))"

text \<open>
  \<open>strings.ToUpper\<close>. On a string of ASCII bytes it maps \<open>a\<close> .. \<open>z\<close> to \<open>A\<close> .. \<open>Z\<close>. On
  any other string it returns \<open>strings.Map(unicode.ToUpper, s)\<close>, which rests on the
  case tables of Unicode; that function is the parameter \<open>up\<close>.
\<close>

definition upper_byte :: "char \<Rightarrow> char" where
  "upper_byte c = (if 97 \<le> (of_char c :: nat) \<and> (of_char c :: nat) \<le> 122
                   then char_of ((of_char c :: nat) - 32) else c)"

definition ToUpper :: "(string \<Rightarrow> string) \<Rightarrow> string \<Rightarrow> string" where
  "ToUpper up s = (if isASCII s then map upper_byte s else up s)"

text \<open>
  \<open>fmt.Sprintf("%-*s", l, val)\<close>: \<open>val\<close> followed by spaces up to a width of \<open>l\<close> code
  points (the width is counted with \<open>utf8.RuneCountInString\<close>).
\<close>

definition padRight :: "nat \<Rightarrow> string \<Rightarrow> string" where
  "padRight l val = val @ replicate (l - RuneCountInString val) CHR '' ''"

text \<open>The slice expression \<open>data[a:b]\<close> for \<open>a \<le> b \<le> len(data)\<close>.\<close>

definition slice :: "'a list \<Rightarrow> nat \<Rightarrow> nat \<Rightarrow> 'a list" where
  "slice xs a b = take (b - a) (drop a xs)"

text \<open>Little-endian integers, as \<open>binary.Write\<close> and \<open>binary.Read\<close> lay them out.\<close>

definition byte :: "nat \<Rightarrow> char" where
  "byte n = char_of (n mod 256)"

definition put_uint16 :: "nat \<Rightarrow> string" where
  "put_uint16 n = [byte n, byte (n div 256)]"

definition put_uint32 :: "nat \<Rightarrow> string" where
  "put_uint32 n = [byte n, byte (n div 256), byte (n div 65536), byte (n div 16777216)]"

definition get_uint16 :: "string \<Rightarrow> nat \<Rightarrow> nat" where
  "get_uint16 bs off = of_char (bs ! off) + 256 * of_char (bs ! (off + 1))"

definition get_uint32 :: "string \<Rightarrow> nat \<Rightarrow> nat" where
  "get_uint32 bs off = of_char (bs ! off) + 256 * of_char (bs ! (off + 1))
     + 65536 * of_char (bs ! (off + 2)) + 16777216 * of_char (bs ! (off + 3))"


section \<open>The DBF codec\<close>

definition dbfVersion :: char where "dbfVersion = byte 0x03"
definition dbfHeaderTerminator :: char where "dbfHeaderTerminator = byte 0x0D"
definition dbfRecordDeleted :: char where "dbfRecordDeleted = CHR ''*''"
definition dbfRecordActive :: char where "dbfRecordActive = CHR '' ''"
definition dbfEOF :: char where "dbfEOF = byte 0x1A"
definition dbfFieldTypeChar :: char where "dbfFieldTypeChar = CHR ''C''"

subsection \<open>exportDBF\<close>

text \<open>
  The length of field \<open>i\<close>: the length of the header, capped at 254, raised to the
  longest rendering in column \<open>i\<close>, then clamped to 1 .. 254.
\<close>

definition fieldLength :: "(64 word \<Rightarrow> string) \<Rightarrow> dataset \<Rightarrow> nat \<Rightarrow> nat" where
  "fieldLength ff ds i =
     (let header = headers ds ! i;
          maxLen = (if length header > 254 then 254 else length header);
          l = foldl (\<lambda>fl row. if i < length row
                               then (let valLen = length (render ff (row ! i))
                                     in if valLen > fl then valLen else fl)
                               else fl) maxLen (data ds);
          l = (if l < 1 then 1 else l);
          l = (if l > 254 then 254 else l)
      in l)"

text \<open>
  The 32 bytes of a field descriptor: the name (\<open>copy\<close> writes the upper-cased first 10
  bytes of the header, at most 11 bytes of them, over 11 zero bytes), the type, 4
  reserved bytes, the length, the decimal count and 14 reserved bytes.
\<close>

definition fieldName :: "(string \<Rightarrow> string) \<Rightarrow> string \<Rightarrow> string" where
  "fieldName up header =
     (let name = (if length header > 10 then take 10 header else header);
          copied = take 11 (ToUpper up name)
      in copied @ replicate (11 - length copied) (byte 0))"

definition fieldDescriptor :: "(string \<Rightarrow> string) \<Rightarrow> string \<Rightarrow> nat \<Rightarrow> string" where
  "fieldDescriptor up header l =
     fieldName up header @ [dbfFieldTypeChar] @ replicate 4 (byte 0) @ [byte l] @ [byte 0]
       @ replicate 14 (byte 0)"

text \<open>
  The 32 bytes of the file header. \<open>now\<close> is the date \<open>time.Now()\<close> returns: year,
  month, day.
\<close>

definition dbfHeader :: "int \<times> nat \<times> nat \<Rightarrow> nat \<Rightarrow> nat \<Rightarrow> nat \<Rightarrow> string" where
  "dbfHeader now recordCount headerSize recordSize =
     (case now of (year, month, day) \<Rightarrow>
        [dbfVersion, byte (nat ((year - 1900) mod 256)), byte month, byte day]
        @ put_uint32 (recordCount mod 2 ^ 32)
        @ put_uint16 (headerSize mod 2 ^ 16)
        @ put_uint16 (recordSize mod 2 ^ 16)
        @ replicate 20 (byte 0))"

text \<open>
  A field value: the rendering, cut to \<open>l\<close> bytes when it is longer, then padded by
  \<open>fmt.Sprintf("%-*s", l, val)\<close>.
\<close>

definition fieldValue :: "(64 word \<Rightarrow> string) \<Rightarrow> cell list \<Rightarrow> nat \<Rightarrow> nat \<Rightarrow> string" where
  "fieldValue ff row i l =
     (let val = (if i < length row then render ff (row ! i) else []);
          val = (if length val > l then take l val else val)
      in padRight l val)"

definition dbfRecord :: "(64 word \<Rightarrow> string) \<Rightarrow> nat list \<Rightarrow> cell list \<Rightarrow> string" where
  "dbfRecord ff fieldLengths row =
     dbfRecordActive # concat (map (\<lambda>i. fieldValue ff row i (fieldLengths ! i))
                                 [0..<length fieldLengths])"

text \<open>
  \<open>exportDBF\<close> returns the error, if any, and the sink after the call; the sink \<open>w\<close> is
  the list of bytes written so far, and the single \<open>w.Write\<close> at the end appends to it.
\<close>

definition dbfBytes ::
  "(string \<Rightarrow> string) \<Rightarrow> (64 word \<Rightarrow> string) \<Rightarrow> int \<times> nat \<times> nat \<Rightarrow> dataset \<Rightarrow> string" where
  "dbfBytes up ff now ds =
     (let fieldLengths = map (fieldLength ff ds) [0..<length (headers ds)];
          descs = map (\<lambda>i. fieldDescriptor up (headers ds ! i) (fieldLengths ! i))
                     [0..<length (headers ds)];
          recordSize = foldl (+) 1 fieldLengths;
          headerSize = 32 + 32 * length descs + 1
      in dbfHeader now (length (data ds)) headerSize recordSize
         @ concat descs
         @ [dbfHeaderTerminator]
         @ concat (map (dbfRecord ff fieldLengths) (data ds))
         @ [dbfEOF])"

definition exportDBF ::
  "(string \<Rightarrow> string) \<Rightarrow> (64 word \<Rightarrow> string) \<Rightarrow> int \<times> nat \<times> nat \<Rightarrow> dataset \<Rightarrow> string
     \<Rightarrow> error option \<times> string" where
  "exportDBF up ff now ds w =
     (if length (headers ds) = 0 then (Some ErrHeadersRequired, w)
      else (None, w @ dbfBytes up ff now ds))"

subsection \<open>importDBF\<close>

text \<open>Go's integer division truncates towards zero.\<close>

definition quot :: "int \<Rightarrow> int \<Rightarrow> int" where
  "quot a b = (if a < 0 then - ((- a) div b) else a div b)"

text \<open>
  The descs of one record, from \<open>fieldOffset\<close> on: the row starts as \<open>numFields\<close> nil
  values, and the loop stops at the first field that does not fit in the record.
\<close>

fun parseFields :: "string \<Rightarrow> nat list \<Rightarrow> nat \<Rightarrow> cell list" where
  "parseFields recordData [] fieldOffset = []"
| "parseFields recordData (fieldLen # rest) fieldOffset =
     (if fieldOffset + fieldLen > length recordData
      then replicate (Suc (length rest)) CNil
      else CString (TrimSpace (slice recordData fieldOffset (fieldOffset + fieldLen)))
             # parseFields recordData rest (fieldOffset + fieldLen))"

text \<open>
  The loop over the record numbers: \<open>break\<close> at the first record that does not fit in
  the data, \<open>continue\<close> on a record flagged deleted. The read \<open>recordData[0]\<close> panics on
  a record size of zero.
\<close>

fun importRecords ::
  "string \<Rightarrow> nat list \<Rightarrow> nat \<Rightarrow> nat \<Rightarrow> nat list \<Rightarrow> dataset \<Rightarrow> error + dataset" where
  "importRecords bs fieldLens recordStart recordSize [] ds = Inr ds"
| "importRecords bs fieldLens recordStart recordSize (i # is) ds =
     (let offset = recordStart + i * recordSize
      in if offset + recordSize > length bs then Inr ds
         else
           let recordData = slice bs offset (offset + recordSize)
           in if recordData = [] then Inl Panic
              else if recordData ! 0 = dbfRecordDeleted
              then importRecords bs fieldLens recordStart recordSize is ds
              else
                case Append ds (parseFields recordData fieldLens 1) [] of
                  (Some e, ds') \<Rightarrow> Inl e
                | (None, ds') \<Rightarrow> importRecords bs fieldLens recordStart recordSize is ds')"

definition importDBF :: "string \<Rightarrow> error + dataset" where
  "importDBF bs =
     (if length bs < 32 then Inl ErrInvalidData
      else
        let recordCount = get_uint32 bs 4;
            headerSize = get_uint16 bs 8;
            recordSize = get_uint16 bs 10;
            numFields = quot (int headerSize - 32 - 1) 32
        in if numFields < 0 \<or> numFields > 1000 then Inl ErrInvalidData
           else
             case mapE (\<lambda>i. let offset = 32 + i * 32
                             in if offset + 32 > length bs then Inl ErrInvalidData
                                else Inr (slice bs offset (offset + 32)))
                    [0..<nat numFields] of
               Inl e \<Rightarrow> Inl e
             | Inr descs \<Rightarrow>
                 let hs = map (\<lambda>f. TrimSpace (takeWhile (\<lambda>c. c \<noteq> byte 0) (take 11 f))) descs;
                     ds = NewDataset hs
                 in importRecords bs (map (\<lambda>f. of_char (f ! 16)) descs) headerSize recordSize
                      [0..<recordCount] ds)"

definition dbf_example :: dataset where
  "dbf_example = \<lparr> headers = [''Name'', ''Age''],
     data = [[CString ''Alice'', CString ''30'']],
     tags = [[]], title = [], dynamicCols = Map.empty,
     formatters = [], separators = Map.empty \<rparr>"

text \<open>
  What a header becomes through the DBF codec: it is cut to 10 bytes and upper-cased,
  and the first 11 bytes of that are cut at the first NUL byte and trimmed. What a row
  becomes when every field takes the bytes the header of the file announces: a cell is
  rendered, cut to 254 bytes and trimmed, and is a string.
\<close>

definition dbfDecodedHeader :: "(string \<Rightarrow> string) \<Rightarrow> string \<Rightarrow> string" where
  "dbfDecodedHeader up h =
     TrimSpace (takeWhile (\<lambda>c. c \<noteq> byte 0) (take 11 (ToUpper up (take 10 h))))"

definition dbfDecodedRow :: "(64 word \<Rightarrow> string) \<Rightarrow> cell list \<Rightarrow> cell list" where
  "dbfDecodedRow ff row = map (\<lambda>v. CString (TrimSpace (take 254 (render ff v)))) row"

text \<open>The record size \<open>exportDBF\<close> computes, before its conversion to 16 bits.\<close>

definition dbfRecordSize :: "(64 word \<Rightarrow> string) \<Rightarrow> dataset \<Rightarrow> nat" where
  "dbfRecordSize ff ds = foldl (+) 1 (map (fieldLength ff ds) [0..<length (headers ds)])"

definition long_header_example :: dataset where
  "long_header_example = \<lparr> headers = [''LongHeaderName''],
     data = [[CString ''x'']],
     tags = [[]], title = [], dynamicCols = Map.empty,
     formatters = [], separators = Map.empty \<rparr>"

text \<open>
  A column that holds the letter e with an acute accent (the code point U+00E9, which
  UTF-8 encodes in the two bytes C3 A9) above the value \<open>"zz"\<close>.
\<close>

definition accent_example :: dataset where
  "accent_example = \<lparr> headers = [''A''],
     data = [[CString [CHR 0xC3, CHR 0xA9]], [CString ''zz'']],
     tags = [[], []], title = [], dynamicCols = Map.empty,
     formatters = [], separators = Map.empty \<rparr>"


section \<open>The ODS codec\<close>

text \<open>
  The structures \<open>odsCell\<close>, \<open>odsRow\<close> (its only field is the list of cells) and
  \<open>odsTable\<close> that \<open>exportODSSheets\<close> fills, and the structures \<open>simpleCell\<close>,
  \<open>simpleRow\<close> and \<open>simpleTable\<close> that \<open>ImportODS\<close> decodes into. The field \<open>Text\<close> of
  an \<open>odsCell\<close> is a pointer to an \<open>odsText\<close>: \<open>None\<close> is nil.
\<close>

record odsCell =
  ValueType :: string
  Value :: string
  StyleName :: string
  CellText :: "string option"

type_synonym odsRow = "odsCell list"

record odsTable =
  Name :: string
  Rows :: "odsRow list"

record simpleCell =
  sValueType :: string
  sValue :: string
  sText :: string

type_synonym simpleRow = "simpleCell list"

record simpleTable =
  sName :: string
  sRows :: "simpleRow list"

subsection \<open>exportODSSheets\<close>

text \<open>The cell of a data value: the type switch on the kind of the value.\<close>

fun odsDataCell :: "(64 word \<Rightarrow> string) \<Rightarrow> cell \<Rightarrow> odsCell" where
  "odsDataCell ff (CInt i) = \<lparr> ValueType = ''float'', Value = render ff (CInt i),
     StyleName = [], CellText = Some (render ff (CInt i)) \<rparr>"
| "odsDataCell ff (CInt64 i) = \<lparr> ValueType = ''float'', Value = render ff (CInt64 i),
     StyleName = [], CellText = Some (render ff (CInt64 i)) \<rparr>"
| "odsDataCell ff (CNum s) = \<lparr> ValueType = ''float'', Value = render ff (CNum s),
     StyleName = [], CellText = Some (render ff (CNum s)) \<rparr>"
| "odsDataCell ff (CFloat64 w) = \<lparr> ValueType = ''float'', Value = render ff (CFloat64 w),
     StyleName = [], CellText = Some (render ff (CFloat64 w)) \<rparr>"
| "odsDataCell ff (CBool b) = \<lparr> ValueType = ''boolean'', Value = render ff (CBool b),
     StyleName = [], CellText = Some (render ff (CBool b)) \<rparr>"
| "odsDataCell ff v = \<lparr> ValueType = ''string'', Value = [],
     StyleName = [], CellText = Some (render ff v) \<rparr>"

definition odsHeaderCell :: "string \<Rightarrow> odsCell" where
  "odsHeaderCell h = \<lparr> ValueType = ''string'', Value = [], StyleName = ''bold'',
     CellText = Some h \<rparr>"

definition odsSheetTable :: "(64 word \<Rightarrow> string) \<Rightarrow> dataset \<Rightarrow> odsTable" where
  "odsSheetTable ff ds =
     (let table = \<lparr> Name = title ds, Rows = [] \<rparr>;
          table = (if Name table = [] then table\<lparr> Name := ''Sheet'' \<rparr> else table);
          table = (if length (headers ds) > 0
                   then table\<lparr> Rows := Rows table @ [map odsHeaderCell (headers ds)] \<rparr>
                   else table)
      in table\<lparr> Rows := Rows table @ map (map (odsDataCell ff)) (data ds) \<rparr>)"

text \<open>
  The archive \<open>exportODSSheets\<close> writes: the entries \<open>mimetype\<close>,
  \<open>META-INF/manifest.xml\<close>, \<open>styles.xml\<close> and \<open>content.xml\<close>, in this order. Compression
  and the XML text are the work of \<open>archive/zip\<close> and \<open>encoding/xml\<close>; the entry
  \<open>content.xml\<close> is modelled as the list of tables of the document it encodes.
\<close>

datatype zipEntry = RawEntry string | ContentEntry "odsTable list"

definition odsMimetype :: string where
  "odsMimetype = ''application/vnd.oasis.opendocument.spreadsheet''"

definition exportODSSheets ::
  "(64 word \<Rightarrow> string) \<Rightarrow> string \<Rightarrow> string \<Rightarrow> dataset list \<Rightarrow> (string \<times> zipEntry) list" where
  "exportODSSheets ff manifest styles sheets =
     [(''mimetype'', RawEntry odsMimetype),
      (''META-INF/manifest.xml'', RawEntry manifest),
      (''styles.xml'', RawEntry styles),
      (''content.xml'', ContentEntry (map (odsSheetTable ff) sheets))]"

subsection \<open>ImportODS\<close>

text \<open>
  What \<open>encoding/xml\<close> decodes from the document it encoded: every table with its name
  attribute, every row, and every cell with its two attributes and the character data
  of its paragraph (empty when there is none). The encoder escapes an attribute value
  or character data code point by code point: a byte that starts no valid UTF-8
  encoding, and a code point outside the character range of XML (function
  \<open>isInCharacterRange\<close>), is written as U+FFFD, the bytes EF BF BD; every other code
  point is written so that the decoder reads it back. \<open>xmlText s\<close> is the string read
  back for \<open>s\<close>, and \<open>xmlSafe s\<close> says that nothing in \<open>s\<close> is replaced.
\<close>

definition isInCharacterRange :: "nat \<Rightarrow> bool" where
  "isInCharacterRange r \<longleftrightarrow>
     r = 0x09 \<or> r = 0x0A \<or> r = 0x0D \<or> (0x20 \<le> r \<and> r \<le> 0xD7FF)
     \<or> (0xE000 \<le> r \<and> r \<le> 0xFFFD) \<or> (0x10000 \<le> r \<and> r \<le> 0x10FFFF)"

definition xmlReplaced :: "string \<Rightarrow> bool" where
  "xmlReplaced s \<longleftrightarrow>
     \<not> isInCharacterRange (fst (DecodeRuneInString s))
     \<or> (fst (DecodeRuneInString s) = 0xFFFD \<and> snd (DecodeRuneInString s) = 1)"

fun xmlText :: "string \<Rightarrow> string" where
  "xmlText [] = []"
| "xmlText (c # cs) =
     (if xmlReplaced (c # cs) then [CHR 0xEF, CHR 0xBF, CHR 0xBD]
      else take (snd (DecodeRuneInString (c # cs))) (c # cs))
     @ xmlText (drop (snd (DecodeRuneInString (c # cs)) - 1) cs)"

fun xmlSafe :: "string \<Rightarrow> bool" where
  "xmlSafe [] = True"
| "xmlSafe (c # cs) =
     (\<not> xmlReplaced (c # cs) \<and> xmlSafe (drop (snd (DecodeRuneInString (c # cs)) - 1) cs))"

definition xmlDecodeCell :: "odsCell \<Rightarrow> simpleCell" where
  "xmlDecodeCell c = \<lparr> sValueType = xmlText (ValueType c), sValue = xmlText (Value c),
     sText = (case CellText c of None \<Rightarrow> [] | Some t \<Rightarrow> xmlText t) \<rparr>"

definition xmlDecodeTable :: "odsTable \<Rightarrow> simpleTable" where
  "xmlDecodeTable t = \<lparr> sName = xmlText (Name t), sRows = map (map xmlDecodeCell) (Rows t) \<rparr>"

text \<open>The text of a decoded cell: the trimmed paragraph, or the value attribute.\<close>

definition cellString :: "simpleCell \<Rightarrow> string" where
  "cellString c = (let text = TrimSpace (sText c) in if text = [] then sValue c else text)"

text \<open>
  A data row: \<open>len(headers)\<close> nil values, overwritten by the cells up to that length.
\<close>

definition importRow :: "nat \<Rightarrow> simpleRow \<Rightarrow> cell list" where
  "importRow n cells =
     map (\<lambda>c. CString (cellString c)) (take n cells) @ replicate (n - length cells) CNil"

fun ImportODS_rows :: "nat \<Rightarrow> simpleRow list \<Rightarrow> dataset \<Rightarrow> error + dataset" where
  "ImportODS_rows n [] ds = Inr ds"
| "ImportODS_rows n (r # rs) ds =
     (case Append ds (importRow n r) [] of
        (Some e, ds') \<Rightarrow> Inl e
      | (None, ds') \<Rightarrow> ImportODS_rows n rs ds')"

definition ImportODS :: "(string \<times> zipEntry) list \<Rightarrow> string \<Rightarrow> error + dataset" where
  "ImportODS archive sheetName =
     (case find (\<lambda>f. fst f = ''content.xml'') archive of
        None \<Rightarrow> Inl (ErrOther ''content.xml not found in ODS file'')
      | Some (name, RawEntry text) \<Rightarrow> Inl (ErrOther ''content.xml is not an ODS document'')
      | Some (name, ContentEntry tables) \<Rightarrow>
          (case find (\<lambda>t. sheetName = [] \<or> sName t = sheetName) (map xmlDecodeTable tables) of
             None \<Rightarrow> Inl (ErrOther (''sheet '' @ [CHR 0x27] @ sheetName @ [CHR 0x27] @ '' not found''))
           | Some targetTable \<Rightarrow>
               if length (sRows targetTable) = 0 then Inr (NewDataset [])
               else
                 let hs = map cellString (sRows targetTable ! 0);
                     ds = NewDataset hs;
                     ds = ds\<lparr> title := sName targetTable \<rparr>
                 in ImportODS_rows (length hs) (tl (sRows targetTable)) ds))"

text \<open>
  What a cell becomes through the ODS codec: a string, the trimmed text read back for
  the rendering, or the text read back for the rendering when the trimmed text is empty
  and the value is of a kind exported with a value attribute.
\<close>

definition odsDecodedCell :: "(64 word \<Rightarrow> string) \<Rightarrow> cell \<Rightarrow> cell" where
  "odsDecodedCell ff v =
     CString (if TrimSpace (xmlText (render ff v)) = []
                 \<and> kind_of v \<in> {KBool, KInt, KInt64, KFloat64, KNum}
              then xmlText (render ff v)
              else TrimSpace (xmlText (render ff v)))"

text \<open>
  What a row becomes: the cells up to the number of headers, and nil for each missing
  cell.
\<close>

definition odsDecodedRow :: "(64 word \<Rightarrow> string) \<Rightarrow> nat \<Rightarrow> cell list \<Rightarrow> cell list" where
  "odsDecodedRow ff n row = map (odsDecodedCell ff) (take n row) @ replicate (n - length row) CNil"

definition padded_example :: dataset where
  "padded_example = \<lparr> headers = ['' a''], data = [[CString '' x'']],
     tags = [[]], title = ''T'', dynamicCols = Map.empty,
     formatters = [], separators = Map.empty \<rparr>"

definition people_example :: dataset where
  "people_example = \<lparr> headers = [''Name'', ''Age''],
     data = [[CString ''Alice'', CInt 30], [CString ''Bob'', CInt 25]],
     tags = [[], []], title = ''People'', dynamicCols = Map.empty,
     formatters = [], separators = Map.empty \<rparr>"

definition cities_example :: dataset where
  "cities_example = \<lparr> headers = [''City''],
     data = [[CString ''Oslo'']],
     tags = [[]], title = ''Cities'', dynamicCols = Map.empty,
     formatters = [], separators = Map.empty \<rparr>"

definition control_example :: dataset where
  "control_example = \<lparr> headers = [[CHR ''a'', CHR 0x01]], data = [[CString [CHR 0xFF]]],
     tags = [[]], title = ''T'', dynamicCols = Map.empty,
     formatters = [], separators = Map.empty \<rparr>"

definition accents_example :: dataset where
  "accents_example = \<lparr> headers = [[CHR 0xC3, CHR 0x85, CHR ''r'']],
     data = [[CString [CHR 0xC2, CHR 0xA0, CHR 0xC3, CHR 0xA9, CHR 0x20]]],
     tags = [[]], title = [CHR 0xC3, CHR 0x89, CHR ''t'', CHR 0xC3, CHR 0xA9],
     dynamicCols = Map.empty, formatters = [], separators = Map.empty \<rparr>"


section \<open>Termination of the sorting functions\<close>

text \<open>
  The scans of the partitioning functions move \<open>i\<close> up and \<open>j\<close> down and stop when they
  cross, so the loops around them end, and the index a partition returns lies inside
  the range: \<open>pdqsortCmpFunc\<close> always works on a shorter range.
\<close>

lemma partition_up_bounds:
  "i \<le> partition_up cmp xs a i j \<and> int (partition_up cmp xs a i j) \<le> max (int i) (j + 1)"
proof (induction cmp xs a i j rule: partition_up.induct)
  case (1 cmp xs a i j)
  then show ?case by (subst (1 2) partition_up.simps) auto
qed

lemma partition_down_bounds:
  "partition_down cmp xs a i j \<le> j \<and> min j (int i - 1) \<le> partition_down cmp xs a i j"
proof (induction cmp xs a i j rule: partition_down.induct)
  case (1 cmp xs a i j)
  then show ?case by (subst (1 2) partition_down.simps) auto
qed

termination partition_loop
proof (relation "measure (\<lambda>(cmp, xs, a, i, j). nat (j + 1 - int i))")
  show "wf (measure (\<lambda>(cmp, xs, a, i, j). nat (j + 1 - int i)))" by simp
next
  fix cmp :: "'a \<Rightarrow> 'a \<Rightarrow> int" and xs :: "'a list" and a i :: nat and j :: int and i' :: nat
    and j' :: int
  assume i': "i' = partition_up cmp xs a i j" and j': "j' = partition_down cmp xs a i' j"
    and le: "\<not> j' < int i'"
  from i' have "i \<le> i'" using partition_up_bounds [of i cmp xs a j] by simp
  moreover from j' have "j' \<le> j" using partition_down_bounds [of cmp xs a i' j] by simp
  ultimately show "((cmp, exchange xs i' (nat j'), a, i' + 1, j' - 1), (cmp, xs, a, i, j))
      \<in> measure (\<lambda>(cmp, xs, a, i, j). nat (j + 1 - int i))"
    using le by simp
qed

declare partition_loop.simps [simp del]

lemma equal_up_ge: "i \<le> equal_up cmp xs a i j"
proof (induction cmp xs a i j rule: equal_up.induct)
  case (1 cmp xs a i j)
  then show ?case by (subst equal_up.simps) auto
qed

lemma equal_down_le: "equal_down cmp xs a i j \<le> j"
proof (induction cmp xs a i j rule: equal_down.induct)
  case (1 cmp xs a i j)
  then show ?case by (subst equal_down.simps) auto
qed

termination partitionEqual_loop
proof (relation "measure (\<lambda>(cmp, xs, a, i, j). nat (j + 1 - int i))")
  show "wf (measure (\<lambda>(cmp, xs, a, i, j). nat (j + 1 - int i)))" by simp
next
  fix cmp :: "'a \<Rightarrow> 'a \<Rightarrow> int" and xs :: "'a list" and a i :: nat and j :: int and i' :: nat
    and j' :: int
  assume i': "i' = equal_up cmp xs a i j" and j': "j' = equal_down cmp xs a i' j"
    and le: "\<not> j' < int i'"
  from i' have "i \<le> i'" using equal_up_ge [of i cmp xs a j] by simp
  moreover from j' have "j' \<le> j" using equal_down_le [of cmp xs a i' j] by simp
  ultimately show "((cmp, exchange xs i' (nat j'), a, i' + 1, j' - 1), (cmp, xs, a, i, j))
      \<in> measure (\<lambda>(cmp, xs, a, i, j). nat (j + 1 - int i))"
    using le by simp
qed

declare partitionEqual_loop.simps [simp del]

lemma partition_loop_bounds:
  "int i \<le> j + 2 \<Longrightarrow>
     snd (partition_loop cmp xs a i j) \<le> j \<and> int i - 2 \<le> snd (partition_loop cmp xs a i j)"
proof (induction cmp xs a i j rule: partition_loop.induct)
  case (1 cmp xs a i j)
  define i' where "i' = partition_up cmp xs a i j"
  define j' where "j' = partition_down cmp xs a i' j"
  have bi: "i \<le> i'" "int i' \<le> max (int i) (j + 1)"
    using partition_up_bounds [of i cmp xs a j] by (simp_all add: i'_def)
  have bj: "j' \<le> j" "min j (int i' - 1) \<le> j'"
    using partition_down_bounds [of cmp xs a i' j] by (simp_all add: j'_def)
  show ?case
  proof (cases "int i' > j'")
    case True
    then have "partition_loop cmp xs a i j = (xs, j')"
      by (subst partition_loop.simps) (simp add: i'_def j'_def Let_def)
    with bi bj "1.prems" show ?thesis by auto
  next
    case False
    then have e: "partition_loop cmp xs a i j
        = partition_loop cmp (exchange xs i' (nat j')) a (i' + 1) (j' - 1)"
      by (subst partition_loop.simps) (simp add: i'_def j'_def Let_def)
    from False have "int (i' + 1) \<le> j' - 1 + 2" by simp
    with "1.IH" [OF i'_def j'_def] False have
      "snd (partition_loop cmp (exchange xs i' (nat j')) a (i' + 1) (j' - 1)) \<le> j' - 1 \<and>
       int (i' + 1) - 2 \<le> snd (partition_loop cmp (exchange xs i' (nat j')) a (i' + 1) (j' - 1))"
      by simp
    with bi bj show ?thesis unfolding e by auto
  qed
qed

lemma partitionCmpFunc_mid:
  assumes "a < b"
  shows "a \<le> fst (snd (partitionCmpFunc xs a b pivot cmp)) \<and>
         fst (snd (partitionCmpFunc xs a b pivot cmp)) < b"
proof -
  define ys where "ys = exchange xs a pivot"
  define i' where "i' = partition_up cmp ys a (a + 1) (int b - 1)"
  define j' where "j' = partition_down cmp ys a i' (int b - 1)"
  have bi: "a + 1 \<le> i'" "int i' \<le> max (int (a + 1)) (int b - 1 + 1)"
    using partition_up_bounds [of "a + 1" cmp ys a "int b - 1"] by (simp_all add: i'_def)
  have bj: "j' \<le> int b - 1" "min (int b - 1) (int i' - 1) \<le> j'"
    using partition_down_bounds [of cmp ys a i' "int b - 1"] by (simp_all add: j'_def)
  show ?thesis
  proof (cases "int i' > j'")
    case True
    then have "fst (snd (partitionCmpFunc xs a b pivot cmp)) = nat j'"
      by (simp add: partitionCmpFunc_def Let_def ys_def i'_def j'_def)
    with bi bj assms show ?thesis by auto
  next
    case False
    define r where "r = partition_loop cmp (exchange ys i' (nat j')) a (i' + 1) (j' - 1)"
    from False have mid: "fst (snd (partitionCmpFunc xs a b pivot cmp)) = nat (snd r)"
      by (simp add: partitionCmpFunc_def Let_def ys_def i'_def j'_def r_def split: prod.splits)
    from False have "int (i' + 1) \<le> j' - 1 + 2" by simp
    from partition_loop_bounds [OF this, of cmp "exchange ys i' (nat j')" a]
    have "snd r \<le> j' - 1" "int (i' + 1) - 2 \<le> snd r" by (simp_all add: r_def)
    with bi bj assms show ?thesis unfolding mid by auto
  qed
qed

lemma partitionEqual_loop_ge: "i \<le> snd (partitionEqual_loop cmp xs a i j)"
proof (induction cmp xs a i j rule: partitionEqual_loop.induct)
  case (1 cmp xs a i j)
  define i' where "i' = equal_up cmp xs a i j"
  define j' where "j' = equal_down cmp xs a i' j"
  have bi: "i \<le> i'" using equal_up_ge [of i cmp xs a j] by (simp add: i'_def)
  show ?case
  proof (cases "int i' > j'")
    case True
    then have "partitionEqual_loop cmp xs a i j = (xs, i')"
      by (subst partitionEqual_loop.simps) (simp add: i'_def j'_def Let_def)
    with bi show ?thesis by simp
  next
    case False
    then have e: "partitionEqual_loop cmp xs a i j
        = partitionEqual_loop cmp (exchange xs i' (nat j')) a (i' + 1) (j' - 1)"
      by (subst partitionEqual_loop.simps) (simp add: i'_def j'_def Let_def)
    from "1.IH" [OF i'_def j'_def] False bi show ?thesis unfolding e by simp
  qed
qed

lemma partitionEqualCmpFunc_mid: "a < snd (partitionEqualCmpFunc xs a b pivot cmp)"
  using partitionEqual_loop_ge [of "a + 1" cmp "exchange xs a pivot" a "int b - 1"]
  by (simp add: partitionEqualCmpFunc_def Let_def)

termination pdqsortCmpFunc
proof (relation "measure (\<lambda>(next, cmp, xs, a, b, limit, wasBalanced, wasPartitioned). b - a)",
    goal_cases)
  case 1
  then show ?case by simp
next
  case (2 nxt cmp xs a b limit wasBalanced wasPartitioned x len xb xc xd xe xf pivot xh xi xj ys)
  from 2(1,2,3) have "a < b" by simp
  with partitionEqualCmpFunc_mid [of a ys b pivot cmp]
  have "b - snd (partitionEqualCmpFunc ys a b pivot cmp) < b - a" by arith
  then show ?case by simp
next
  case (3 nxt cmp xs a b limit wasBalanced wasPartitioned x len xb xc xd xe xf pivot xh xi xj ys
      zs mid)
  from 3(1,2,3) have "a < b" by simp
  from partitionCmpFunc_mid [OF this, of ys pivot cmp] 3(18) have "a \<le> mid" "mid < b"
    by simp_all
  then have "mid - a < b - a" "b - (mid + 1) < b - a" by arith+
  then show ?case by simp
next
  case (4 nxt cmp xs a b limit wasBalanced wasPartitioned x len xb xc xd xe xf pivot xh xi xj ys
      zs mid)
  from 4(1,2,3) have "a < b" by simp
  from partitionCmpFunc_mid [OF this, of ys pivot cmp] 4(18) have "a \<le> mid" "mid < b"
    by simp_all
  then have "mid - a < b - a" "b - (mid + 1) < b - a" by arith+
  then show ?case by simp
next
  case (5 nxt cmp xs a b limit wasBalanced wasPartitioned x len xb xc xd xe xf pivot xh xi xj ys
      zs mid)
  from 5(1,2,3) have "a < b" by simp
  from partitionCmpFunc_mid [OF this, of ys pivot cmp] 5(18) have "a \<le> mid" "mid < b"
    by simp_all
  then have "mid - a < b - a" "b - (mid + 1) < b - a" by arith+
  then show ?case by simp
next
  case (6 nxt cmp xs a b limit wasBalanced wasPartitioned x len xb xc xd xe xf pivot xh xi xj ys
      zs mid)
  from 6(1,2,3) have "a < b" by simp
  from partitionCmpFunc_mid [OF this, of ys pivot cmp] 6(18) have "a \<le> mid" "mid < b"
    by simp_all
  then have "mid - a < b - a" "b - (mid + 1) < b - a" by arith+
  then show ?case by simp
qed

declare pdqsortCmpFunc.simps [simp del]


section \<open>Properties of compareAny\<close>


lemma compare_string_swap: "compare_string t s = - compare_string s t"
  by (induction s t rule: compare_string.induct) auto


lemma compare_string_le0:
  "compare_string (x # xs) (y # ys) \<le> 0 \<longleftrightarrow>
     (of_char x :: nat) < of_char y \<or> (x = y \<and> compare_string xs ys \<le> 0)"
  by (auto simp: of_char_eq_iff)

lemma compare_string_trans:
  "compare_string s t \<le> 0 \<Longrightarrow> compare_string t u \<le> 0 \<Longrightarrow> compare_string s u \<le> 0"
proof (induction s t arbitrary: u rule: compare_string.induct)
  case 1
  then show ?case by simp
next
  case (2 y ys)
  then show ?case by (cases u) simp_all
next
  case (3 x xs)
  then show ?case by simp
next
  case (4 x xs y ys)
  show ?case
  proof (cases u)
    case Nil
    with 4 show ?thesis by simp
  next
    case (Cons z zs)
    from 4(2) have a: "(of_char x :: nat) < of_char y \<or> (x = y \<and> compare_string xs ys \<le> 0)"
      by (simp only: compare_string_le0)
    from 4(3) Cons have b: "(of_char y :: nat) < of_char z \<or> (y = z \<and> compare_string ys zs \<le> 0)"
      by (simp only: compare_string_le0)
    from a b 4(1) have "(of_char x :: nat) < of_char z \<or> (x = z \<and> compare_string xs zs \<le> 0)"
      by (metis less_trans nat_neq_iff)
    then show ?thesis unfolding Cons by (simp only: compare_string_le0)
  qed
qed

lemma compare_int_trans:
  "compare_int x y \<le> 0 \<Longrightarrow> compare_int y z \<le> 0 \<Longrightarrow> compare_int x z \<le> 0"
  by (auto simp: compare_int_def split: if_splits)

lemma compare_float64_trans:
  "compare_float64 x y \<le> 0 \<Longrightarrow> compare_float64 y z \<le> 0 \<Longrightarrow> compare_float64 x z \<le> 0"
  by (auto simp: compare_float64_def split: if_splits)

lemma compareAny_native:
  "native_pair a b \<or> compareAny ff a b = compare_string (render ff a) (render ff b)"
  by (cases a; cases b) simp_all

lemma compareAny_swap_native:
  "native_pair a b \<Longrightarrow> compareAny ff b a = - compareAny ff a b"
proof (induction a b rule: native_pair.induct)
  case (4 va vb)
  then show ?case using compare_string_swap [of vb va] by simp
qed (simp_all add: compare_int_def compare_float64_def)

lemma native_pair_sym: "native_pair b a = native_pair a b"
  by (cases a; cases b) simp_all

lemma compareAny_swap: "compareAny ff b a = - compareAny ff a b"
proof (cases "native_pair a b")
  case True
  then show ?thesis by (rule compareAny_swap_native)
next
  case False
  then have "compareAny ff a b = compare_string (render ff a) (render ff b)"
    using compareAny_native [of a b ff] by simp
  moreover from False have "compareAny ff b a = compare_string (render ff b) (render ff a)"
    using compareAny_native [of b a ff] by (simp add: native_pair_sym)
  ultimately show ?thesis
    using compare_string_swap [of "render ff b" "render ff a"] by simp
qed



lemma compareAny_trans_same_kind:
  assumes "kind_of a = kind_of b" "kind_of b = kind_of c"
    and "compareAny ff a b \<le> 0" "compareAny ff b c \<le> 0"
  shows "compareAny ff a c \<le> 0"
proof (cases a)
  case (CInt x)
  with assms show ?thesis by (cases b; cases c) (auto dest: compare_int_trans)
next
  case (CInt64 x)
  with assms show ?thesis by (cases b; cases c) (auto dest: compare_int_trans)
next
  case (CFloat64 x)
  with assms show ?thesis by (cases b; cases c) (auto dest: compare_float64_trans)
next
  case (CString x)
  with assms show ?thesis by (cases b; cases c) (auto dest: compare_string_trans)
next
  case CNil
  with assms show ?thesis by (cases b; cases c) auto
next
  case (CBool x)
  with assms show ?thesis
    using compare_string_trans [of "render ff a" "render ff b" "render ff c"]
    by (cases b; cases c) simp_all
next
  case (CNum x)
  with assms show ?thesis by (cases b; cases c) (auto dest: compare_string_trans)
next
  case (COther x)
  with assms show ?thesis by (cases b; cases c) (auto dest: compare_string_trans)
qed





section \<open>Append and AppendCol\<close>

text \<open>
  Claim C8: on a dataset of positive width, \<open>Append\<close> with a row whose length is not the
  width returns \<open>ErrInvalidDimensions\<close> and leaves the dataset as it was: same row
  count, same rows, same tags.
\<close>

theorem Append_dimension_mismatch:
  "0 < Width ds \<Longrightarrow> length row \<noteq> Width ds \<Longrightarrow>
     Append ds row rowTags = (Some ErrInvalidDimensions, ds) \<and>
     Height (snd (Append ds row rowTags)) = Height ds \<and>
     data (snd (Append ds row rowTags)) = data ds \<and>
     tags (snd (Append ds row rowTags)) = tags ds"
  by (simp add: Append_def)

theorem Append_dimension_mismatch_witness:
  "0 < Width (NewDataset [''Name'', ''Age'']) \<and>
   length [CString ''Alice''] \<noteq> Width (NewDataset [''Name'', ''Age'']) \<and>
   Append (NewDataset [''Name'', ''Age'']) [CString ''Alice''] [] =
     (Some ErrInvalidDimensions, NewDataset [''Name'', ''Age'']) \<and>
   Height (snd (Append (NewDataset [''Name'', ''Age'']) [CString ''Alice''] [])) = 0"
  using Append_dimension_mismatch [of "NewDataset [''Name'', ''Age'']" "[CString ''Alice'']" "[]"]
  by (simp add: Width_def NewDataset_def Height_def)

text \<open>
  Claim C3 at the input \<open>NewDataset ["a"]\<close> followed by \<open>AppendCol("b", [1])\<close>: the call
  succeeds, the headers become \<open>["a", "b"]\<close> (width 2) and the only stored row is
  \<open>[1]\<close>, of length 1; \<open>Get(0, 1)\<close> then passes both range checks and reads past the
  end of the row.
\<close>

theorem AppendCol_short_rows:
  "fst (AppendCol (NewDataset [''a'']) ''b'' [CInt 1]) = None \<and>
   headers (snd (AppendCol (NewDataset [''a'']) ''b'' [CInt 1])) = [''a'', ''b''] \<and>
   data (snd (AppendCol (NewDataset [''a'']) ''b'' [CInt 1])) = [[CInt 1]] \<and>
   Width (snd (AppendCol (NewDataset [''a'']) ''b'' [CInt 1])) = 2 \<and>
   map length (data (snd (AppendCol (NewDataset [''a'']) ''b'' [CInt 1]))) = [1] \<and>
   Get (snd (AppendCol (NewDataset [''a'']) ''b'' [CInt 1])) 0 1 = Inl Panic"
  by (simp add: AppendCol_def NewDataset_def Width_def Get_def Let_def)

text \<open>
  The datasets of the theorems below have one tag list per row. A new dataset has, and
  \<open>Append\<close> and \<open>AppendCol\<close> keep it so.
\<close>

lemma NewDataset_tags: "length (tags (NewDataset hs)) = length (data (NewDataset hs))"
  by (simp add: NewDataset_def)

lemma Append_tags:
  "length (tags ds) = length (data ds) \<Longrightarrow>
     length (tags (snd (Append ds row rowTags))) = length (data (snd (Append ds row rowTags)))"
  by (simp add: Append_def)

lemma AppendCol_tags:
  "length (tags ds) = length (data ds) \<Longrightarrow>
     length (tags (snd (AppendCol ds header col))) = length (data (snd (AppendCol ds header col)))"
  by (simp add: AppendCol_def Let_def)


section \<open>Derivations\<close>

lemma Copy_rows_result:
  "length rows \<le> length ts \<Longrightarrow>
     Copy_rows rows ts result =
       Inr (result\<lparr> data := data result @ rows, tags := tags result @ take (length rows) ts \<rparr>)"
proof (induction rows arbitrary: ts result)
  case Nil
  then show ?case by simp
next
  case (Cons row rows)
  then obtain t ts' where ts: "ts = t # ts'" by (cases ts) auto
  with Cons show ?case by simp
qed

lemma Copy_result:
  "length (tags ds) = length (data ds) \<Longrightarrow>
     Copy ds = Inr \<lparr> headers = headers ds, data = data ds, tags = tags ds, title = title ds,
       dynamicCols = dynamicCols ds, formatters = formatters ds, separators = separators ds \<rparr>"
  by (simp add: Copy_def Copy_rows_result NewDataset_def)




lemma Subset_rows_result:
  "length rows \<le> length ts \<Longrightarrow> \<forall>row \<in> set rows. \<forall>idx \<in> set indices. idx < length row \<Longrightarrow>
     Subset_rows indices rows ts result =
       Inr (result\<lparr> data := data result @ map (\<lambda>row. map (\<lambda>idx. row ! idx) indices) rows,
                    tags := tags result @ take (length rows) ts \<rparr>)"
proof (induction rows arbitrary: ts result)
  case Nil
  then show ?case by simp
next
  case (Cons row rows)
  then obtain t ts' where ts: "ts = t # ts'" by (cases ts) auto
  from Cons.prems(2) have "\<not> (\<exists>idx \<in> set indices. length row \<le> idx)" by auto
  with Cons ts show ?case by simp
qed

lemma mapE_Inr: "(\<And>x. x \<in> set xs \<Longrightarrow> f x = Inr (g x)) \<Longrightarrow> mapE f xs = Inr (map g xs)"
  by (induction xs) simp_all

lemma mapE_length: "mapE f xs = Inr ys \<Longrightarrow> length ys = length xs"
  by (induction xs arbitrary: ys) (auto split: sum.splits)

lemma all_less_Suc_shift: "(\<forall>j<Suc i. Q j) \<longleftrightarrow> Q 0 \<and> (\<forall>j<i. Q (Suc j))"
  by (metis less_Suc_eq_0_disj)

lemma upt_Suc_shift: "[0..<Suc n] = 0 # map Suc [0..<n]"
  by (simp add: upt_conv_Cons map_Suc_upt del: upt_Suc)

lemma kept_indices_Nil: "kept_indices ff seen [] = []"
  by (simp add: kept_indices_def)

lemma kept_indices_Cons_seen:
  assumes "rowKey ff row \<in> seen"
  shows "kept_indices ff seen (row # rows) = map Suc (kept_indices ff seen rows)"
proof -
  have "\<And>i. (rowKey ff (rows ! i) \<notin> seen \<and> rowKey ff row \<noteq> rowKey ff (rows ! i) \<and>
            (\<forall>j<i. rowKey ff (rows ! j) \<noteq> rowKey ff (rows ! i)))
         = (rowKey ff (rows ! i) \<notin> seen \<and> (\<forall>j<i. rowKey ff (rows ! j) \<noteq> rowKey ff (rows ! i)))"
    using assms by auto
  then show ?thesis
    using assms
    by (simp add: kept_indices_def upt_Suc_shift filter_map comp_def all_less_Suc_shift
          del: upt_Suc)
qed

lemma kept_indices_Cons_new:
  assumes "rowKey ff row \<notin> seen"
  shows "kept_indices ff seen (row # rows) =
           0 # map Suc (kept_indices ff (insert (rowKey ff row) seen) rows)"
proof -
  have "\<And>i. (rowKey ff (rows ! i) \<notin> seen \<and> rowKey ff row \<noteq> rowKey ff (rows ! i) \<and>
            (\<forall>j<i. rowKey ff (rows ! j) \<noteq> rowKey ff (rows ! i)))
         = (rowKey ff (rows ! i) \<noteq> rowKey ff row \<and> rowKey ff (rows ! i) \<notin> seen \<and>
            (\<forall>j<i. rowKey ff (rows ! j) \<noteq> rowKey ff (rows ! i)))"
    by auto
  then show ?thesis
    using assms
    by (simp add: kept_indices_def upt_Suc_shift filter_map comp_def all_less_Suc_shift
          del: upt_Suc)
qed

lemma RemoveDuplicates_rows_result:
  "length rows \<le> length ts \<Longrightarrow>
     RemoveDuplicates_rows ff seen rows ts result =
       Inr (result\<lparr> data := data result @ map (\<lambda>i. rows ! i) (kept_indices ff seen rows),
                    tags := tags result @ map (\<lambda>i. ts ! i) (kept_indices ff seen rows) \<rparr>)"
proof (induction rows arbitrary: ts seen result)
  case Nil
  then show ?case by (simp add: kept_indices_Nil)
next
  case (Cons row rows)
  then obtain t ts' where ts: "ts = t # ts'" by (cases ts) auto
  with Cons.prems have len: "length rows \<le> length ts'" by simp
  show ?case
  proof (cases "rowKey ff row \<in> seen")
    case True
    then show ?thesis
      using Cons.IH [OF len, of seen result]
      by (simp add: ts kept_indices_Cons_seen comp_def Let_def)
  next
    case False
    then show ?thesis
      using Cons.IH [OF len]
      by (simp add: ts kept_indices_Cons_new comp_def Let_def)
  qed
qed

lemma first_occurrences_kept: "first_occurrences ff rows = kept_indices ff {} rows"
  by (simp add: first_occurrences_def kept_indices_def)

lemma RemoveDuplicates_result:
  "length (tags ds) = length (data ds) \<Longrightarrow>
     RemoveDuplicates ff ds = Inr \<lparr> headers = headers ds,
       data = map (\<lambda>i. data ds ! i) (first_occurrences ff (data ds)),
       tags = map (\<lambda>i. tags ds ! i) (first_occurrences ff (data ds)),
       title = title ds, dynamicCols = dynamicCols ds, formatters = [], separators = Map.empty \<rparr>"
  by (simp add: RemoveDuplicates_def RemoveDuplicates_rows_result NewDataset_def
        first_occurrences_kept)

lemma Transpose_no_rows: "data ds = [] \<Longrightarrow> Transpose ds = Inr (NewDataset [])"
  by (simp add: Transpose_def)

lemma Transpose_columns:
  assumes "\<forall>row \<in> set rows. length row = w"
  shows "mapE (\<lambda>col. mapE (\<lambda>row. if col < length row then Inr (row ! col) else Inl Panic) rows)
           [s..<w] = Inr (map (\<lambda>col. map (\<lambda>row. row ! col) rows) [s..<w])"
proof (rule mapE_Inr)
  fix col assume "col \<in> set [s..<w]"
  then have "col < w" by simp
  with assms show "mapE (\<lambda>row. if col < length row then Inr (row ! col) else Inl Panic) rows
      = Inr (map (\<lambda>row. row ! col) rows)"
    by (intro mapE_Inr) simp
qed

lemma Transpose_headers:
  assumes "\<forall>row \<in> set rows. length row = w" "0 < w"
  shows "mapE (\<lambda>row. case row of [] \<Rightarrow> Inl Panic | v # _ \<Rightarrow> Inr (header_of_cell v)) rows
           = Inr (map (\<lambda>row. header_of_cell (row ! 0)) rows)"
proof (rule mapE_Inr)
  fix row assume "row \<in> set rows"
  with assms have "row \<noteq> []" by auto
  then show "(case row of [] \<Rightarrow> Inl Panic | v # _ \<Rightarrow> Inr (header_of_cell v))
      = Inr (header_of_cell (row ! 0))"
    by (cases row) simp_all
qed

lemma Transpose_with_headers:
  assumes "data ds \<noteq> []" "headers ds \<noteq> []" "\<forall>row \<in> set (data ds). length row = Width ds"
  shows "Transpose ds = Inr \<lparr> headers = map (\<lambda>row. header_of_cell (row ! 0)) (data ds),
       data = map (\<lambda>col. map (\<lambda>row. row ! col) (data ds)) [1..<Width ds],
       tags = replicate (Width ds - 1) [],
       title = title ds, dynamicCols = Map.empty, formatters = [], separators = Map.empty \<rparr>"
proof -
  from assms(2) have w: "0 < Width ds" by (simp add: Width_def)
  show ?thesis
    using assms(1,2)
    by (simp add: Transpose_def Transpose_headers [OF assms(3) w] Transpose_columns [OF assms(3)]
          NewDataset_def)
qed

lemma Transpose_without_headers:
  assumes "data ds \<noteq> []" "headers ds = []" "\<forall>row \<in> set (data ds). length row = Width ds"
  shows "Transpose ds = Inr \<lparr> headers = [],
       data = map (\<lambda>col. map (\<lambda>row. row ! col) (data ds)) [0..<Width ds],
       tags = replicate (Width ds) [],
       title = title ds, dynamicCols = Map.empty, formatters = [], separators = Map.empty \<rparr>"
  using assms(1,2)
  by (simp add: Transpose_def Transpose_columns [OF assms(3)] NewDataset_def)




lemma StackRows_result:
  assumes "length (tags ds) = length (data ds)" "length (tags other) = length (data other)"
    "Width ds = Width other"
  shows "StackRows ds other = Inr \<lparr> headers = headers ds, data = data ds @ data other,
       tags = tags ds @ tags other, title = title ds, dynamicCols = dynamicCols ds,
       formatters = formatters ds, separators = separators ds \<rparr>"
  using assms by (simp add: StackRows_def Copy_result Copy_rows_result)

lemma StackCols_result:
  assumes "length (tags ds) = length (data ds)" "Height ds = Height other"
  shows "StackCols ds other = Inr \<lparr> headers = headers ds @ headers other,
       data = map (\<lambda>i. (data ds ! i) @ (data other ! i)) [0..<length (data ds)],
       tags = tags ds, title = title ds, dynamicCols = dynamicCols ds,
       formatters = formatters ds, separators = separators ds \<rparr>"
  using assms by (simp add: StackCols_def Copy_result)


lemma dataset_eta:
  "\<lparr> headers = headers ds, data = data ds, tags = tags ds, title = title ds,
     dynamicCols = dynamicCols ds, formatters = formatters ds, separators = separators ds \<rparr> = ds"
  by (cases ds) simp

lemma Copy_id: "length (tags ds) = length (data ds) \<Longrightarrow> Copy ds = Inr ds"
  by (simp add: Copy_result dataset_eta)



lemma first_occurrences_distinct_keys:
  "distinct (map (\<lambda>i. rowKey ff (rows ! i)) (first_occurrences ff rows))"
proof -
  have "inj_on (\<lambda>i. rowKey ff (rows ! i)) (set (first_occurrences ff rows))"
  proof (rule inj_onI)
    fix i i'
    assume i: "i \<in> set (first_occurrences ff rows)" and i': "i' \<in> set (first_occurrences ff rows)"
      and eq: "rowKey ff (rows ! i) = rowKey ff (rows ! i')"
    from i have a: "\<forall>j<i. rowKey ff (rows ! j) \<noteq> rowKey ff (rows ! i)"
      by (simp add: first_occurrences_def)
    from i' have b: "\<forall>j<i'. rowKey ff (rows ! j) \<noteq> rowKey ff (rows ! i')"
      by (simp add: first_occurrences_def)
    from a b eq show "i = i'" by (metis nat_neq_iff)
  qed
  moreover have "distinct (first_occurrences ff rows)"
    by (simp add: first_occurrences_def)
  ultimately show ?thesis by (simp add: distinct_map)
qed

lemma first_occurrences_cover:
  "(\<lambda>i. rowKey ff (rows ! i)) ` set (first_occurrences ff rows) = rowKey ff ` set rows"
proof
  show "(\<lambda>i. rowKey ff (rows ! i)) ` set (first_occurrences ff rows) \<subseteq> rowKey ff ` set rows"
    by (auto simp: first_occurrences_def)
next
  show "rowKey ff ` set rows \<subseteq> (\<lambda>i. rowKey ff (rows ! i)) ` set (first_occurrences ff rows)"
  proof
    fix k assume "k \<in> rowKey ff ` set rows"
    then obtain i where i: "i < length rows" "rowKey ff (rows ! i) = k"
      by (auto simp: in_set_conv_nth)
    define m where "m = (LEAST n. n < length rows \<and> rowKey ff (rows ! n) = k)"
    from i have m: "m < length rows \<and> rowKey ff (rows ! m) = k"
      unfolding m_def by (intro LeastI [of "\<lambda>n. n < length rows \<and> rowKey ff (rows ! n) = k" i]) simp
    have "\<forall>j<m. rowKey ff (rows ! j) \<noteq> rowKey ff (rows ! m)"
    proof (intro allI impI)
      fix j assume "j < m"
      then have "\<not> (j < length rows \<and> rowKey ff (rows ! j) = k)"
        unfolding m_def by (rule not_less_Least)
      with \<open>j < m\<close> m show "rowKey ff (rows ! j) \<noteq> rowKey ff (rows ! m)" by auto
    qed
    with m have "m \<in> set (first_occurrences ff rows)" by (simp add: first_occurrences_def)
    with m show "k \<in> (\<lambda>i. rowKey ff (rows ! i)) ` set (first_occurrences ff rows)" by auto
  qed
qed

lemma rowKey_Cons: "rowKey ff (v # row) = render ff v @ CHR 0x00 # rowKey ff row"
  by (simp add: rowKey_def)

lemma split_at_separator:
  "c \<notin> set s1 \<Longrightarrow> c \<notin> set s2 \<Longrightarrow> (s1 @ c # t1 = s2 @ c # t2) = (s1 = s2 \<and> t1 = t2)"
proof (induction s1 arbitrary: s2)
  case Nil
  then show ?case by (cases s2) auto
next
  case (Cons x s1)
  then show ?case by (cases s2) auto
qed

lemma rowKey_injective:
  assumes "\<forall>v \<in> set row1. CHR 0x00 \<notin> set (render ff v)"
    and "\<forall>v \<in> set row2. CHR 0x00 \<notin> set (render ff v)"
  shows "rowKey ff row1 = rowKey ff row2 \<longleftrightarrow> map (render ff) row1 = map (render ff) row2"
  using assms
proof (induction row1 arbitrary: row2)
  case Nil
  then show ?case by (cases row2) (simp_all add: rowKey_def)
next
  case (Cons v row1)
  show ?case
  proof (cases row2)
    case Nil
    then show ?thesis by (simp add: rowKey_def)
  next
    case (Cons w row2')
    from Cons.prems(1) have nv: "CHR 0x00 \<notin> set (render ff v)" by simp
    from Cons.prems(2) Cons have nw: "CHR 0x00 \<notin> set (render ff w)" by simp
    have "rowKey ff (v # row1) = rowKey ff (w # row2') \<longleftrightarrow>
        render ff v = render ff w \<and> rowKey ff row1 = rowKey ff row2'"
      unfolding rowKey_Cons using nv nw by (rule split_at_separator)
    moreover have "rowKey ff row1 = rowKey ff row2' \<longleftrightarrow>
        map (render ff) row1 = map (render ff) row2'"
      using Cons.prems Cons by (intro Cons.IH) simp_all
    ultimately show ?thesis using Cons by simp
  qed
qed

text \<open>
  The key separates the renderings with NUL bytes, so it tells two rows apart by their
  renderings only when no rendering holds a NUL byte: these two rows of different
  renderings have one key.
\<close>

lemma rowKey_collision:
  "rowKey ff [CString [CHR ''a'', CHR 0x00, CHR ''b''], CString []] =
     rowKey ff [CString ''a'', CString [CHR ''b'', CHR 0x00]] \<and>
   map (render ff) [CString [CHR ''a'', CHR 0x00, CHR ''b''], CString []] \<noteq>
     map (render ff) [CString ''a'', CString [CHR ''b'', CHR 0x00]]"
  by (simp add: rowKey_def)

text \<open>
  Claim C9: on a dataset with one tag list per row, \<open>RemoveDuplicates\<close> returns a
  dataset with the same headers whose rows are exactly the rows of the input that are
  the first with their \<open>rowKey\<close>, in input order, each with its own tags; no two rows
  of the result share a key and every key of the input occurs in the result. The key
  of a row is the list of the renderings of its cells: two rows whose renderings hold
  no NUL byte have the same key exactly when they have the same renderings, cell by
  cell. The witness is the scenario of the claim: rows Alice, Bob, Alice give Alice,
  Bob.
\<close>

theorem RemoveDuplicates_first_occurrences:
  assumes "length (tags ds) = length (data ds)"
  shows "(\<exists>r. RemoveDuplicates ff ds = Inr r \<and>
           headers r = headers ds \<and>
           data r = map (\<lambda>i. data ds ! i) (first_occurrences ff (data ds)) \<and>
           tags r = map (\<lambda>i. tags ds ! i) (first_occurrences ff (data ds)) \<and>
           distinct (map (rowKey ff) (data r)) \<and>
           rowKey ff ` set (data r) = rowKey ff ` set (data ds)) \<and>
         ((\<forall>v \<in> set row1. CHR 0x00 \<notin> set (render ff v)) \<and>
          (\<forall>v \<in> set row2. CHR 0x00 \<notin> set (render ff v)) \<longrightarrow>
            (rowKey ff row1 = rowKey ff row2 \<longleftrightarrow>
               map (render ff) row1 = map (render ff) row2))"
proof
  show "\<exists>r. RemoveDuplicates ff ds = Inr r \<and>
           headers r = headers ds \<and>
           data r = map (\<lambda>i. data ds ! i) (first_occurrences ff (data ds)) \<and>
           tags r = map (\<lambda>i. tags ds ! i) (first_occurrences ff (data ds)) \<and>
           distinct (map (rowKey ff) (data r)) \<and>
           rowKey ff ` set (data r) = rowKey ff ` set (data ds)"
    using first_occurrences_distinct_keys [of ff "data ds"]
      first_occurrences_cover [of ff "data ds"]
    by (simp add: RemoveDuplicates_result [OF assms] comp_def image_image)
next
  show "(\<forall>v \<in> set row1. CHR 0x00 \<notin> set (render ff v)) \<and>
          (\<forall>v \<in> set row2. CHR 0x00 \<notin> set (render ff v)) \<longrightarrow>
            (rowKey ff row1 = rowKey ff row2 \<longleftrightarrow>
               map (render ff) row1 = map (render ff) row2)"
    using rowKey_injective [of row1 ff row2] by blast
qed

theorem RemoveDuplicates_first_occurrences_witness:
  "length (tags names_example) = length (data names_example) \<and>
   first_occurrences no_floats (data names_example) = [0, 1] \<and>
   RemoveDuplicates no_floats names_example =
     Inr (names_example\<lparr> data := [[CString ''Alice''], [CString ''Bob'']], tags := [[], []] \<rparr>) \<and>
   list_all (\<lambda>v. CHR 0x00 \<notin> set (render no_floats v)) [CString ''Alice''] \<and>
   list_all (\<lambda>v. CHR 0x00 \<notin> set (render no_floats v)) [CString ''Bob''] \<and>
   rowKey no_floats [CString ''Alice''] \<noteq> rowKey no_floats [CString ''Bob''] \<and>
   rowKey no_floats [CString ''Alice''] = rowKey no_floats (data names_example ! 2)"
proof -
  have len: "length (tags names_example) = length (data names_example)"
    by (simp add: names_example_def)
  have idx: "first_occurrences no_floats (data names_example) = [0, 1]"
    by (simp add: first_occurrences_def names_example_def rowKey_def upt_rec [of 0]
          upt_rec [of 1] upt_rec [of 2] upt_rec [of 3] all_less_Suc_shift numeral_3_eq_3
          less_Suc_eq)
  have nul: "list_all (\<lambda>v. CHR 0x00 \<notin> set (render no_floats v)) [CString ''Alice'']"
    "list_all (\<lambda>v. CHR 0x00 \<notin> set (render no_floats v)) [CString ''Bob'']"
    by simp_all
  note main = RemoveDuplicates_first_occurrences [OF len, of no_floats "[CString ''Alice'']"
      "[CString ''Bob'']"]
  from main idx
  obtain r where r: "RemoveDuplicates no_floats names_example = Inr r"
    "headers r = headers names_example"
    "data r = map (\<lambda>i. data names_example ! i) [0, 1]"
    "tags r = map (\<lambda>i. tags names_example ! i) [0, 1]"
    by auto
  from main nul have keys: "rowKey no_floats [CString ''Alice''] \<noteq> rowKey no_floats [CString ''Bob'']"
    by (simp add: list_all_iff)
  have same: "rowKey no_floats [CString ''Alice''] = rowKey no_floats (data names_example ! 2)"
    by (simp add: names_example_def)
  have "RemoveDuplicates no_floats names_example =
     Inr (names_example\<lparr> data := [[CString ''Alice''], [CString ''Bob'']], tags := [[], []] \<rparr>)"
    by (simp add: RemoveDuplicates_def names_example_def NewDataset_def rowKey_def)
  with len idx nul keys same show ?thesis by simp
qed




text \<open>
  Claim C6, as stated, fails on a first column that holds a value that is not a
  string: the integer 1 gives the header \<open>""\<close>, not its rendering \<open>"1"\<close>.
\<close>

theorem Transpose_header_not_rendered:
  "Transpose ids_example =
     Inr (ids_example\<lparr> headers := [''''], data := [[CString ''a'']] \<rparr>) \<and>
   map (\<lambda>row. row ! 0) (data ids_example) = [CInt 1] \<and>
   render no_floats (CInt 1) = ''1''"
  by (simp add: Transpose_def ids_example_def NewDataset_def Width_def header_of_cell_def
        show_int_def digits.simps)

text \<open>
  Claim C6, amended: on a dataset whose rows all have the width of the dataset (the
  invariant of the data model; on a shorter row the code reads past its end),
  \<open>Transpose\<close> of a dataset without rows is the empty dataset without headers. With rows
  and headers, the new header list has one entry per source row, the first cell of the
  row when that cell is a string and the empty string otherwise, and the new rows are
  the columns 1 to width - 1. With rows and no headers, the new dataset has no headers
  and its rows are all the columns. With rows, the result has the title of the
  receiver, one empty tag list per row, and no dynamic column, formatter or separator.
\<close>

theorem Transpose_semantics:
  assumes "\<forall>row \<in> set (data ds). length row = Width ds"
  shows "(data ds = [] \<longrightarrow> Transpose ds = Inr (NewDataset [])) \<and>
    (data ds \<noteq> [] \<and> headers ds \<noteq> [] \<longrightarrow>
       Transpose ds = Inr \<lparr> headers = map (\<lambda>row. header_of_cell (row ! 0)) (data ds),
         data = map (\<lambda>col. map (\<lambda>row. row ! col) (data ds)) [1..<Width ds],
         tags = replicate (Width ds - 1) [],
         title = title ds, dynamicCols = Map.empty, formatters = [],
         separators = Map.empty \<rparr>) \<and>
    (data ds \<noteq> [] \<and> headers ds = [] \<longrightarrow>
       Transpose ds = Inr \<lparr> headers = [],
         data = map (\<lambda>col. map (\<lambda>row. row ! col) (data ds)) [0..<Width ds],
         tags = replicate (Width ds) [],
         title = title ds, dynamicCols = Map.empty, formatters = [],
         separators = Map.empty \<rparr>)"
  using Transpose_no_rows [of ds] Transpose_with_headers [OF _ _ assms]
    Transpose_without_headers [OF _ _ assms]
  by blast

theorem Transpose_semantics_witness:
  "list_all (\<lambda>row. length row = Width ids_example) (data ids_example) \<and>
   data ids_example \<noteq> [] \<and> headers ids_example \<noteq> [] \<and>
   Transpose ids_example =
     Inr (ids_example\<lparr> headers := [''''], data := [[CString ''a'']] \<rparr>) \<and>
   list_all (\<lambda>row. length row = Width grid_example) (data grid_example) \<and>
   data grid_example \<noteq> [] \<and> headers grid_example = [] \<and>
   Transpose grid_example =
     Inr (grid_example\<lparr> data := [[CInt 1, CInt 3], [CInt 2, CInt 4]] \<rparr>) \<and>
   list_all (\<lambda>row. length row = Width (NewDataset [''a''])) (data (NewDataset [''a''])) \<and>
   data (NewDataset [''a'']) = [] \<and>
   Transpose (NewDataset [''a'']) = Inr (NewDataset [])"
proof -
  have a': "list_all (\<lambda>row. length row = Width ids_example) (data ids_example)"
    by (simp add: ids_example_def Width_def)
  have b': "list_all (\<lambda>row. length row = Width grid_example) (data grid_example)"
    by (simp add: grid_example_def Width_def)
  have c': "list_all (\<lambda>row. length row = Width (NewDataset [''a''])) (data (NewDataset [''a'']))"
    by (simp add: NewDataset_def)
  from a' have a: "\<forall>row \<in> set (data ids_example). length row = Width ids_example"
    by (simp add: list_all_iff)
  from b' have b: "\<forall>row \<in> set (data grid_example). length row = Width grid_example"
    by (simp add: list_all_iff)
  from c' have c: "\<forall>row \<in> set (data (NewDataset [''a''])). length row = Width (NewDataset [''a''])"
    by (simp add: list_all_iff)
  have wa: "Width ids_example = 2" by (simp add: ids_example_def Width_def)
  have wb: "Width grid_example = 2" by (simp add: grid_example_def Width_def)
  from Transpose_semantics [OF a] have
    "Transpose ids_example = Inr (ids_example\<lparr> headers := [''''], data := [[CString ''a'']] \<rparr>)"
    by (simp add: wa) (simp add: ids_example_def header_of_cell_def numeral_2_eq_2)
  moreover from Transpose_semantics [OF b] have
    "Transpose grid_example = Inr (grid_example\<lparr> data := [[CInt 1, CInt 3], [CInt 2, CInt 4]] \<rparr>)"
    by (simp add: wb) (simp add: grid_example_def numeral_2_eq_2)
  moreover from Transpose_semantics [OF c] have
    "Transpose (NewDataset [''a'']) = Inr (NewDataset [])"
    by (simp add: NewDataset_def)
  moreover have "data ids_example \<noteq> [] \<and> headers ids_example \<noteq> [] \<and>
    data grid_example \<noteq> [] \<and> headers grid_example = [] \<and> data (NewDataset [''a'']) = []"
    by (simp add: ids_example_def grid_example_def NewDataset_def)
  ultimately show ?thesis using a' b' c' by simp
qed


section \<open>Strings of ASCII bytes\<close>

text \<open>
  On a string of ASCII bytes a code point is a byte: the count of code points is the
  length, and \<open>TrimSpace\<close> removes the leading and trailing bytes of the table
  \<open>asciiSpace\<close>.
\<close>

lemma DecodeRuneInString_ascii:
  "(of_char c :: nat) < 128 \<Longrightarrow> DecodeRuneInString (c # cs) = (of_char c, 1)"
  by (simp add: DecodeRuneInString.simps(2))

lemma DecodeRuneInString_width:
  "s \<noteq> [] \<Longrightarrow> 1 \<le> snd (DecodeRuneInString s) \<and> snd (DecodeRuneInString s) \<le> length s"
  by (cases s) (auto simp: DecodeRuneInString.simps(2) Let_def Suc_le_eq not_less)

lemma RuneCountInString_ascii: "isASCII s \<Longrightarrow> RuneCountInString s = length s"
  by (induction s) (simp_all add: isASCII_def DecodeRuneInString_ascii)

lemma TrimSpace_stop_ascii:
  "isASCII s \<Longrightarrow> k \<le> length s \<Longrightarrow>
     TrimSpace_stop s k = rev (dropWhile asciiSpace (rev (take k s)))"
proof (induction k)
  case 0
  then show ?case by simp
next
  case (Suc k)
  then have k: "k < length s" by simp
  with Suc.prems(1) have "(of_char (s ! k) :: nat) < 128"
    unfolding isASCII_def list_all_length by blast
  then have a: "\<not> (of_char (s ! k) :: nat) \<ge> 0x80" by simp
  from k have t: "take (Suc k) s = take k s @ [s ! k]" by (rule take_Suc_conv_app_nth)
  from Suc a show ?case by (simp add: t)
qed

lemma TrimSpace_ascii:
  "isASCII s \<Longrightarrow> TrimSpace s = rev (dropWhile asciiSpace (rev (dropWhile asciiSpace s)))"
proof (induction s)
  case Nil
  then show ?case by simp
next
  case (Cons c cs)
  then have a: "\<not> (of_char c :: nat) \<ge> 0x80" and cs: "isASCII cs"
    by (simp_all add: isASCII_def)
  show ?case
  proof (cases "asciiSpace c")
    case True
    with a Cons.IH [OF cs] show ?thesis by simp
  next
    case False
    have "TrimSpace_stop (c # cs) (length (c # cs))
        = rev (dropWhile asciiSpace (rev (take (length (c # cs)) (c # cs))))"
      using Cons.prems by (intro TrimSpace_stop_ascii) simp_all
    with a False show ?thesis by simp
  qed
qed

lemma isASCII_append: "isASCII (s @ t) \<longleftrightarrow> isASCII s \<and> isASCII t"
  by (simp add: isASCII_def)

lemma isASCII_take: "isASCII s \<Longrightarrow> isASCII (take n s)"
  by (auto simp: isASCII_def list_all_iff dest: in_set_takeD)

lemma isASCII_spaces: "isASCII (replicate k CHR '' '')"
  by (simp add: isASCII_def list_all_iff)

lemma trim_pad:
  "rev (dropWhile asciiSpace (rev (dropWhile asciiSpace (s @ replicate k CHR '' ''))))
     = rev (dropWhile asciiSpace (rev (dropWhile asciiSpace s)))"
proof (cases "\<forall>c \<in> set s. asciiSpace c")
  case True
  have sp: "asciiSpace CHR '' ''" by (simp add: asciiSpace_def)
  from True sp have e1: "dropWhile asciiSpace (s @ replicate k CHR '' '') = []"
    unfolding dropWhile_eq_Nil_conv by auto
  from True have e2: "dropWhile asciiSpace s = []"
    unfolding dropWhile_eq_Nil_conv by auto
  show ?thesis unfolding e1 e2 ..
next
  case False
  have sp: "asciiSpace CHR '' ''" by (simp add: asciiSpace_def)
  from False obtain c where "c \<in> set s" "\<not> asciiSpace c" by auto
  then have e1: "dropWhile asciiSpace (s @ replicate k CHR '' '')
      = dropWhile asciiSpace s @ replicate k CHR '' ''"
    by (rule dropWhile_append1)
  have e2: "dropWhile asciiSpace (replicate k CHR '' '' @ rev (dropWhile asciiSpace s))
      = dropWhile asciiSpace (rev (dropWhile asciiSpace s))"
    by (rule dropWhile_append2) (use sp in auto)
  show ?thesis unfolding e1 by (simp add: e2)
qed

lemma TrimSpace_pad:
  "isASCII s \<Longrightarrow> TrimSpace (s @ replicate k CHR '' '') = TrimSpace s"
  by (simp add: TrimSpace_ascii isASCII_append isASCII_spaces trim_pad)

lemma length_padRight:
  "isASCII val \<Longrightarrow> length val \<le> l \<Longrightarrow> length (padRight l val) = l"
  by (simp add: padRight_def RuneCountInString_ascii)

lemma TrimSpace_padRight: "isASCII val \<Longrightarrow> TrimSpace (padRight l val) = TrimSpace val"
  by (simp add: padRight_def TrimSpace_pad)

text \<open>
  Outside ASCII the padding counts code points and not bytes: the two bytes of one
  accented letter are padded to three bytes for a width of two.
\<close>

lemma padRight_counts_code_points:
  "padRight 2 [CHR 0xC3, CHR 0xA9] = [CHR 0xC3, CHR 0xA9, CHR '' ''] \<and>
   length [CHR 0xC3, CHR 0xA9] = 2 \<and> RuneCountInString [CHR 0xC3, CHR 0xA9] = 1"
  by (simp add: padRight_def DecodeRuneInString.simps(2))


section \<open>The DBF codec: export followed by import\<close>

lemma of_char_byte: "of_char (byte n) = n mod 256"
  by (simp add: byte_def)

lemma length_put_uint16: "length (put_uint16 n) = 2"
  by (simp add: put_uint16_def)

lemma length_put_uint32: "length (put_uint32 n) = 4"
  by (simp add: put_uint32_def)

lemma length_dbfHeader: "length (dbfHeader now c h r) = 32"
  by (cases now) (simp add: dbfHeader_def length_put_uint16 length_put_uint32)

lemma uint16_bytes: "n < 65536 \<Longrightarrow> n mod 256 + 256 * (n div 256 mod 256) = (n::nat)"
proof -
  assume "n < 65536"
  then have "n div 256 < 256" by simp
  then have "n div 256 mod 256 = n div 256" by simp
  then show ?thesis by simp
qed

lemma uint32_bytes:
  assumes "n < 4294967296"
  shows "n mod 256 + 256 * (n div 256 mod 256) + 65536 * (n div 65536 mod 256)
       + 16777216 * (n div 16777216 mod 256) = (n::nat)"
proof -
  define q1 q2 q3 where "q1 = n div 256" and "q2 = n div 65536" and "q3 = n div 16777216"
  have q2: "q2 = q1 div 256" by (simp add: q1_def q2_def div_mult2_eq [symmetric])
  have q3: "q3 = q2 div 256" by (simp add: q2_def q3_def div_mult2_eq [symmetric])
  from assms have "q3 < 256" by (simp add: q3_def)
  then have e3: "q3 mod 256 = q3" by simp
  have e0: "n = n mod 256 + 256 * q1" by (simp add: q1_def)
  have e1: "q1 = q1 mod 256 + 256 * q2" by (simp add: q2)
  have e2: "q2 = q2 mod 256 + 256 * q3" by (simp add: q3)
  from e0 e1 e2 have "n mod 256 + 256 * (q1 mod 256) + 65536 * (q2 mod 256) + 16777216 * q3 = n"
    by linarith
  then show ?thesis by (simp only: e3 q1_def [symmetric] q2_def [symmetric] q3_def [symmetric])
qed

lemma get_put_uint16:
  "n < 65536 \<Longrightarrow> get_uint16 (pre @ put_uint16 n @ post) (length pre) = n"
  using uint16_bytes [of n]
  by (simp add: get_uint16_def put_uint16_def nth_append of_char_byte)

lemma get_put_uint32:
  "n < 4294967296 \<Longrightarrow> get_uint32 (pre @ put_uint32 n @ post) (length pre) = n"
  using uint32_bytes [of n]
  by (simp add: get_uint32_def put_uint32_def nth_append of_char_byte)

lemma dbfHeader_recordCount:
  "get_uint32 (dbfHeader now c h r @ rest) 4 = c mod 2 ^ 32"
proof -
  obtain y m d where now: "now = (y, m, d)" by (cases now)
  define pre where "pre = [dbfVersion, byte (nat ((y - 1900) mod 256)), byte m, byte d]"
  define post where
    "post = put_uint16 (h mod 2 ^ 16) @ put_uint16 (r mod 2 ^ 16) @ replicate 20 (byte 0) @ rest"
  have len: "length pre = 4" by (simp add: pre_def)
  have "get_uint32 (pre @ put_uint32 (c mod 2 ^ 32) @ post) (length pre) = c mod 2 ^ 32"
    by (rule get_put_uint32) simp
  moreover have "dbfHeader now c h r @ rest = pre @ put_uint32 (c mod 2 ^ 32) @ post"
    by (simp add: dbfHeader_def now pre_def post_def)
  ultimately show ?thesis by (simp only: len)
qed

lemma dbfHeader_headerSize:
  "get_uint16 (dbfHeader now c h r @ rest) 8 = h mod 2 ^ 16"
proof -
  obtain y m d where now: "now = (y, m, d)" by (cases now)
  define pre where "pre = [dbfVersion, byte (nat ((y - 1900) mod 256)), byte m, byte d]
      @ put_uint32 (c mod 2 ^ 32)"
  define post where "post = put_uint16 (r mod 2 ^ 16) @ replicate 20 (byte 0) @ rest"
  have len: "length pre = 8" by (simp add: pre_def length_put_uint32)
  have "get_uint16 (pre @ put_uint16 (h mod 2 ^ 16) @ post) (length pre) = h mod 2 ^ 16"
    by (rule get_put_uint16) simp
  moreover have "dbfHeader now c h r @ rest = pre @ put_uint16 (h mod 2 ^ 16) @ post"
    by (simp add: dbfHeader_def now pre_def post_def)
  ultimately show ?thesis by (simp only: len)
qed

lemma dbfHeader_recordSize:
  "get_uint16 (dbfHeader now c h r @ rest) 10 = r mod 2 ^ 16"
proof -
  obtain y m d where now: "now = (y, m, d)" by (cases now)
  define pre where "pre = [dbfVersion, byte (nat ((y - 1900) mod 256)), byte m, byte d]
      @ put_uint32 (c mod 2 ^ 32) @ put_uint16 (h mod 2 ^ 16)"
  define post where "post = replicate 20 (byte 0) @ rest"
  have len: "length pre = 10" by (simp add: pre_def length_put_uint32 length_put_uint16)
  have "get_uint16 (pre @ put_uint16 (r mod 2 ^ 16) @ post) (length pre) = r mod 2 ^ 16"
    by (rule get_put_uint16) simp
  moreover have "dbfHeader now c h r @ rest = pre @ put_uint16 (r mod 2 ^ 16) @ post"
    by (simp add: dbfHeader_def now pre_def post_def)
  ultimately show ?thesis by (simp only: len)
qed

lemma length_fieldName: "length (fieldName up h) = 11"
  by (simp add: fieldName_def Let_def)

lemma length_fieldDescriptor: "length (fieldDescriptor up h l) = 32"
  by (simp add: fieldDescriptor_def length_fieldName)

lemma fieldDescriptor_length_byte: "l < 256 \<Longrightarrow> of_char (fieldDescriptor up h l ! 16) = l"
  by (simp add: fieldDescriptor_def nth_append length_fieldName of_char_byte)

lemma take_fieldName: "take 11 (fieldDescriptor up h l) = fieldName up h"
  by (simp add: fieldDescriptor_def length_fieldName)

lemma takeWhile_padding:
  "takeWhile (\<lambda>c. c \<noteq> z) (u @ replicate k z) = takeWhile (\<lambda>c. c \<noteq> z) u"
  by (cases k) (simp_all add: takeWhile_tail)

lemma fieldName_decode:
  "takeWhile (\<lambda>c. c \<noteq> byte 0) (fieldName up h)
     = takeWhile (\<lambda>c. c \<noteq> byte 0) (take 11 (ToUpper up (take 10 h)))"
proof -
  have "(if length h > 10 then take 10 h else h) = take 10 h" by simp
  then show ?thesis
    unfolding fieldName_def Let_def by (simp only: takeWhile_padding)
qed

lemma length_concat_blocks:
  "\<forall>b \<in> set bs. length b = k \<Longrightarrow> length (concat bs) = length bs * k"
  by (induction bs) simp_all

lemma slice_middle: "slice (pre @ b @ post) (length pre) (length pre + length b) = b"
  by (simp add: slice_def)

lemma slice_concat_blocks:
  assumes "\<forall>b \<in> set bs. length b = k" "i < length bs"
  shows "slice (pre @ concat bs @ post) (length pre + i * k) (length pre + i * k + k) = bs ! i"
proof -
  have bs: "bs = take i bs @ bs ! i # drop (Suc i) bs"
    using assms(2) by (rule id_take_nth_drop)
  have "\<forall>b \<in> set (take i bs). length b = k"
    using assms(1) by (meson in_set_takeD)
  then have l1: "length (concat (take i bs)) = i * k"
    using assms(2) length_concat_blocks [of "take i bs" k] by simp
  have l2: "length (bs ! i) = k" using assms by simp
  have "pre @ concat bs @ post
      = (pre @ concat (take i bs)) @ bs ! i @ (concat (drop (Suc i) bs) @ post)"
    by (subst bs) simp
  then have "slice (pre @ concat bs @ post) (length pre + i * k) (length pre + i * k + k)
      = slice ((pre @ concat (take i bs)) @ bs ! i @ (concat (drop (Suc i) bs) @ post))
          (length (pre @ concat (take i bs))) (length (pre @ concat (take i bs)) + length (bs ! i))"
    by (simp add: l1 l2)
  then show ?thesis by (simp only: slice_middle)
qed

text \<open>The running maximum of \<open>fieldLength\<close>.\<close>

lemma fieldLength_foldl_ge:
  "m \<le> foldl (\<lambda>fl row. if i < length row
                          then (let valLen = length (render ff (row ! i))
                                in if valLen > fl then valLen else fl)
                          else fl) m rows"
proof (induction rows arbitrary: m)
  case Nil
  then show ?case by simp
next
  case (Cons row rows)
  show ?case
    using Cons.IH [of "if i < length row
        then (let valLen = length (render ff (row ! i)) in if valLen > m then valLen else m)
        else m"]
    by (auto simp: Let_def split: if_splits)
qed

lemma fieldLength_foldl_covers:
  "row \<in> set rows \<Longrightarrow> i < length row \<Longrightarrow>
     length (render ff (row ! i))
       \<le> foldl (\<lambda>fl row. if i < length row
                           then (let valLen = length (render ff (row ! i))
                                 in if valLen > fl then valLen else fl)
                           else fl) m rows"
proof (induction rows arbitrary: m)
  case Nil
  then show ?case by simp
next
  case (Cons r rows)
  show ?case
  proof (cases "row = r")
    case True
    with Cons.prems show ?thesis
      using fieldLength_foldl_ge [of "if length (render ff (r ! i)) > m
          then length (render ff (r ! i)) else m" i ff rows]
      by (auto simp: Let_def split: if_splits)
  next
    case False
    with Cons.prems have "row \<in> set rows" by simp
    from Cons.IH [OF this Cons.prems(2)] show ?thesis by simp
  qed
qed

lemma fieldLength_bounds: "1 \<le> fieldLength ff ds i \<and> fieldLength ff ds i \<le> 254"
  by (simp add: fieldLength_def Let_def)

lemma fieldLength_take:
  assumes "row \<in> set (data ds)" "i < length row"
  shows "take (fieldLength ff ds i) (render ff (row ! i)) = take 254 (render ff (row ! i))"
proof -
  define m0 where "m0 = (if length (headers ds ! i) > 254 then 254 else length (headers ds ! i))"
  define F where "F = foldl (\<lambda>fl row. if i < length row
                          then (let valLen = length (render ff (row ! i))
                                in if valLen > fl then valLen else fl)
                          else fl) m0 (data ds)"
  have fl: "fieldLength ff ds i = (if (if F < 1 then 1 else F) > 254 then 254
      else (if F < 1 then 1 else F))"
    by (simp add: fieldLength_def Let_def F_def m0_def)
  have cov: "length (render ff (row ! i)) \<le> F"
    unfolding F_def by (rule fieldLength_foldl_covers [OF assms])
  show ?thesis
  proof (cases "length (render ff (row ! i)) \<le> 254")
    case True
    with cov fl have "length (render ff (row ! i)) \<le> fieldLength ff ds i"
      by (auto split: if_splits)
    with True show ?thesis by simp
  next
    case False
    with cov fl have "fieldLength ff ds i = 254" by (auto split: if_splits)
    then show ?thesis by simp
  qed
qed

lemma isASCII_Nil: "isASCII []"
  by (simp add: isASCII_def)

lemma length_fieldValue:
  assumes "i < length row \<longrightarrow> isASCII (render ff (row ! i))"
  shows "length (fieldValue ff row i l) = l"
proof -
  define val where "val = (if i < length row then render ff (row ! i) else [])"
  define val' where "val' = (if length val > l then take l val else val)"
  from assms have "isASCII val" by (simp add: val_def isASCII_Nil)
  then have "isASCII val'" by (simp add: val'_def isASCII_take)
  moreover have "length val' \<le> l" by (simp add: val'_def)
  ultimately have "length (padRight l val') = l" by (rule length_padRight)
  moreover have "fieldValue ff row i l = padRight l val'"
    by (simp add: fieldValue_def Let_def val_def val'_def)
  ultimately show ?thesis by (simp only:)
qed

lemma TrimSpace_fieldValue:
  assumes "i < length row" "isASCII (render ff (row ! i))"
  shows "TrimSpace (fieldValue ff row i l) = TrimSpace (take l (render ff (row ! i)))"
proof -
  define val where "val = render ff (row ! i)"
  define val' where "val' = (if length val > l then take l val else val)"
  from assms(2) have "isASCII val'" by (simp add: val'_def val_def isASCII_take)
  then have "TrimSpace (padRight l val') = TrimSpace val'" by (rule TrimSpace_padRight)
  moreover have "val' = take l val" by (simp add: val'_def)
  moreover have "fieldValue ff row i l = padRight l val'"
    using assms(1) by (simp add: fieldValue_def Let_def val_def val'_def)
  ultimately show ?thesis by (simp add: val_def)
qed

lemma foldl_add_sum: "foldl (+) (a::nat) xs = a + sum_list xs"
  by (induction xs arbitrary: a) simp_all

lemma length_dbfRecord:
  assumes "\<forall>v \<in> set row. isASCII (render ff v)"
  shows "length (dbfRecord ff fls row) = 1 + sum_list fls"
proof -
  have "map (\<lambda>i. fls ! i) [0..<length fls] = fls" by (rule map_nth)
  moreover have "length (fieldValue ff row i l) = l" for i l
    using assms by (intro length_fieldValue) simp
  ultimately show ?thesis
    by (simp add: dbfRecord_def length_concat comp_def)
qed

lemma parseFields_blocks:
  "length vals = length lens \<Longrightarrow> \<forall>k<length lens. length (vals ! k) = lens ! k \<Longrightarrow>
     parseFields (pre @ concat vals @ post) lens (length pre)
       = map (\<lambda>v. CString (TrimSpace v)) vals"
proof (induction vals arbitrary: lens pre)
  case Nil
  then show ?case by simp
next
  case (Cons v vs)
  then obtain l ls where lens: "lens = l # ls" by (cases lens) auto
  from Cons.prems lens have lv: "length v = l" by auto
  from Cons.prems lens have rest: "length vs = length ls" "\<forall>k<length ls. length (vs ! k) = ls ! k"
    by auto
  have sl: "slice (pre @ v @ concat vs @ post) (length pre) (length pre + l) = v"
    using slice_middle [of pre v "concat vs @ post"] by (simp add: lv)
  have "parseFields ((pre @ v) @ concat vs @ post) ls (length (pre @ v))
      = map (\<lambda>v. CString (TrimSpace v)) vs"
    by (rule Cons.IH [OF rest])
  then show ?case by (simp add: lens sl lv)
qed

lemma map_nth_fun: "map (\<lambda>i. f (xs ! i)) [0..<length xs] = map f xs"
proof -
  have "map (\<lambda>i. f (xs ! i)) [0..<length xs] = map f (map (\<lambda>i. xs ! i) [0..<length xs])"
    by (simp add: comp_def)
  then show ?thesis by (simp only: map_nth)
qed

lemma parseFields_dbfRecord:
  assumes "row \<in> set (data ds)" "length row = length (headers ds)"
    and "\<forall>v \<in> set row. isASCII (render ff v)"
  shows "parseFields (dbfRecord ff (map (fieldLength ff ds) [0..<length (headers ds)]) row)
           (map (fieldLength ff ds) [0..<length (headers ds)]) 1 = dbfDecodedRow ff row"
proof -
  define n where "n = length (headers ds)"
  define fls where "fls = map (fieldLength ff ds) [0..<n]"
  define vals where "vals = map (\<lambda>i. fieldValue ff row i (fls ! i)) [0..<length fls]"
  have lf: "length fls = n" by (simp add: fls_def)
  have lv: "length vals = length fls" by (simp add: vals_def)
  have lfv: "length (fieldValue ff row i l) = l" for i l
    using assms(3) by (intro length_fieldValue) simp
  have lens: "\<forall>k<length fls. length (vals ! k) = fls ! k"
    by (simp add: vals_def lfv)
  have rec: "dbfRecord ff fls row = [dbfRecordActive] @ concat vals @ []"
    by (simp add: dbfRecord_def vals_def)
  have "parseFields ([dbfRecordActive] @ concat vals @ []) fls (length [dbfRecordActive])
      = map (\<lambda>v. CString (TrimSpace v)) vals"
    by (rule parseFields_blocks [OF lv lens])
  then have p: "parseFields (dbfRecord ff fls row) fls 1 = map (\<lambda>v. CString (TrimSpace v)) vals"
    by (simp only: rec list.size One_nat_def add_0 plus_nat.simps)
  have "map (\<lambda>v. CString (TrimSpace v)) vals
      = map (\<lambda>i. CString (TrimSpace (take 254 (render ff (row ! i))))) [0..<length row]"
  proof -
    have "\<And>i. i < n \<Longrightarrow> TrimSpace (fieldValue ff row i (fls ! i))
        = TrimSpace (take 254 (render ff (row ! i)))"
    proof -
      fix i assume i: "i < n"
      with assms have il: "i < length row" by (simp add: n_def)
      with assms(3) have asc: "isASCII (render ff (row ! i))" by simp
      from i have "fls ! i = fieldLength ff ds i" by (simp add: fls_def)
      then show "TrimSpace (fieldValue ff row i (fls ! i))
          = TrimSpace (take 254 (render ff (row ! i)))"
        using TrimSpace_fieldValue [OF il asc, of "fls ! i"] fieldLength_take [OF assms(1) il, of ff]
        by simp
    qed
    then show ?thesis using assms(2) by (simp add: vals_def lf n_def)
  qed
  also have "\<dots> = dbfDecodedRow ff row"
    unfolding dbfDecodedRow_def by (rule map_nth_fun)
  finally show ?thesis using p by (simp add: fls_def n_def)
qed

lemma importRecords_all:
  assumes "\<forall>r \<in> set recs. length r = rsz" "0 < rsz"
    and "\<forall>r \<in> set recs. r ! 0 \<noteq> dbfRecordDeleted"
    and "headers ds \<noteq> []"
    and "\<forall>r \<in> set recs. length (parseFields r fls 1) = length (headers ds)"
    and "\<forall>i \<in> set is. i < length recs"
  shows "importRecords (pre @ concat recs @ post) fls (length pre) rsz is ds
    = Inr (ds\<lparr> data := data ds @ map (\<lambda>i. parseFields (recs ! i) fls 1) is,
               tags := tags ds @ replicate (length is) [] \<rparr>)"
  using assms(4,5,6)
proof (induction "is" arbitrary: ds)
  case Nil
  then show ?case by simp
next
  case (Cons i "is")
  from Cons.prems have i: "i < length recs" by simp
  have len: "length (concat recs) = length recs * rsz"
    using assms(1) by (rule length_concat_blocks)
  from i have "Suc i \<le> length recs" by simp
  then have "Suc i * rsz \<le> length recs * rsz" by (rule mult_le_mono1)
  then have fits: "\<not> length pre + i * rsz + rsz > length (pre @ concat recs @ post)"
    by (simp add: len)
  have sl: "slice (pre @ concat recs @ post) (length pre + i * rsz) (length pre + i * rsz + rsz)
      = recs ! i"
    using assms(1) i by (rule slice_concat_blocks)
  from i have mem: "recs ! i \<in> set recs" by simp
  with assms(1,2) have ne: "recs ! i \<noteq> []" by auto
  from mem assms(3) have act: "recs ! i ! 0 \<noteq> dbfRecordDeleted" by simp
  from mem Cons.prems(2) have rl: "length (parseFields (recs ! i) fls 1) = length (headers ds)"
    by simp
  from Cons.prems(1) have w: "Width ds = length (headers ds)" "0 < Width ds"
    by (simp_all add: Width_def)
  define ds' where "ds' = ds\<lparr> data := data ds @ [parseFields (recs ! i) fls 1],
      tags := tags ds @ [[]] \<rparr>"
  have app: "Append ds (parseFields (recs ! i) fls 1) [] = (None, ds')"
    using w rl by (simp add: Append_def ds'_def)
  from app have app': "Append ds (parseFields (recs ! i) fls (Suc 0)) [] = (None, ds')"
    by simp
  have h': "headers ds' = headers ds" by (simp add: ds'_def)
  have ih: "importRecords (pre @ concat recs @ post) fls (length pre) rsz is ds'
      = Inr (ds'\<lparr> data := data ds' @ map (\<lambda>i. parseFields (recs ! i) fls 1) is,
                  tags := tags ds' @ replicate (length is) [] \<rparr>)"
    using Cons.prems by (intro Cons.IH) (simp_all add: h')
  have step: "importRecords (pre @ concat recs @ post) fls (length pre) rsz (i # is) ds
      = importRecords (pre @ concat recs @ post) fls (length pre) rsz is ds'"
    using fits by (simp add: Let_def sl ne act app' del: length_append)
  show ?case unfolding step ih by (simp add: ds'_def)
qed

lemma quot_32: "quot (int (33 + 32 * n) - 32 - 1) 32 = int n"
  by (simp add: quot_def)

lemma importDBF_unfold:
  assumes "32 \<le> length bs" "get_uint32 bs 4 = c" "get_uint16 bs 8 = 33 + 32 * n"
    and "get_uint16 bs 10 = rsz" "n \<le> 1000"
    and "mapE (\<lambda>i. let offset = 32 + i * 32
                    in if offset + 32 > length bs then Inl ErrInvalidData
                       else Inr (slice bs offset (offset + 32))) [0..<n] = Inr descs"
  shows "importDBF bs =
    importRecords bs (map (\<lambda>f. of_char (f ! 16)) descs) (33 + 32 * n) rsz [0..<c]
      (NewDataset (map (\<lambda>f. TrimSpace (takeWhile (\<lambda>c. c \<noteq> byte 0) (take 11 f))) descs))"
proof -
  have q: "quot (int (get_uint16 bs 8) - 32 - 1) 32 = int n"
    unfolding assms(3) by (rule quot_32)
  note m = assms(6) [unfolded Let_def]
  show ?thesis
    unfolding importDBF_def Let_def q nat_int m
    using assms(1,5) by (simp add: assms(2,3,4))
qed

text \<open>
  The layout of the bytes \<open>exportDBF\<close> writes: 33 + 32 n bytes for the file header, the
  n field descriptors and the terminator, then the records and the end-of-file marker.
  \<open>importDBF\<close> reads the record count, the sizes and the descriptors back from them, for
  any headers and values.
\<close>

lemma dbfBytes_layout:
  "\<exists>pre. length pre = 33 + 32 * length (headers ds) \<and>
     dbfBytes up ff now ds
       = pre @ concat (map (dbfRecord ff (map (fieldLength ff ds) [0..<length (headers ds)]))
                        (data ds)) @ [dbfEOF]"
proof -
  define n where "n = length (headers ds)"
  define fls where "fls = map (fieldLength ff ds) [0..<n]"
  define descs where "descs = map (\<lambda>i. fieldDescriptor up (headers ds ! i) (fls ! i)) [0..<n]"
  define H where "H = dbfHeader now (length (data ds)) (32 + 32 * length descs + 1) (foldl (+) 1 fls)"
  have dlen: "\<forall>d \<in> set descs. length d = 32"
    by (auto simp: descs_def length_fieldDescriptor)
  have "length (concat descs) = length descs * 32"
    using dlen by (rule length_concat_blocks)
  then have "length (H @ concat descs @ [dbfHeaderTerminator]) = 33 + 32 * n"
    by (simp add: H_def length_dbfHeader descs_def)
  moreover have "dbfBytes up ff now ds
      = (H @ concat descs @ [dbfHeaderTerminator]) @ concat (map (dbfRecord ff fls) (data ds)) @ [dbfEOF]"
    by (simp add: dbfBytes_def Let_def H_def descs_def fls_def n_def)
  ultimately show ?thesis unfolding fls_def n_def by blast
qed

lemma importDBF_header:
  assumes hs: "headers ds \<noteq> []" and cols: "length (headers ds) \<le> 1000"
    and size: "dbfRecordSize ff ds < 65536"
    and count: "length (data ds) < 4294967296"
  shows "importDBF (dbfBytes up ff now ds) =
    importRecords (dbfBytes up ff now ds) (map (fieldLength ff ds) [0..<length (headers ds)])
      (33 + 32 * length (headers ds)) (dbfRecordSize ff ds) [0..<length (data ds)]
      (NewDataset (map (dbfDecodedHeader up) (headers ds)))"
proof -
  define n where "n = length (headers ds)"
  define fls where "fls = map (fieldLength ff ds) [0..<n]"
  define descs where "descs = map (\<lambda>i. fieldDescriptor up (headers ds ! i) (fls ! i)) [0..<n]"
  define rsz where "rsz = foldl (+) 1 fls"
  define recs where "recs = map (dbfRecord ff fls) (data ds)"
  define H where "H = dbfHeader now (length (data ds)) (32 + 32 * length descs + 1) rsz"
  define bs where "bs = dbfBytes up ff now ds"
  have ld: "length descs = n" by (simp add: descs_def)
  have bs: "bs = H @ concat descs @ [dbfHeaderTerminator] @ concat recs @ [dbfEOF]"
    by (simp add: bs_def dbfBytes_def Let_def H_def descs_def fls_def rsz_def recs_def n_def)
  have lH: "length H = 32" by (simp add: H_def length_dbfHeader)
  have rsz: "rsz = dbfRecordSize ff ds" by (simp add: dbfRecordSize_def rsz_def fls_def n_def)
  have rsz_lt: "rsz < 65536" using size by (simp add: rsz)
  have dlen: "\<forall>d \<in> set descs. length d = 32"
    by (auto simp: descs_def length_fieldDescriptor)
  have lcd: "length (concat descs) = n * 32"
    using length_concat_blocks [OF dlen] by (simp add: ld)
  have len32: "32 \<le> length bs" by (simp add: bs lH)
  have c: "get_uint32 bs 4 = length (data ds)"
    unfolding bs H_def dbfHeader_recordCount using count by simp
  have h: "get_uint16 bs 8 = 33 + 32 * n"
    unfolding bs H_def dbfHeader_headerSize using cols by (simp add: ld n_def)
  have r: "get_uint16 bs 10 = rsz"
    unfolding bs H_def dbfHeader_recordSize using rsz_lt by simp
  have fields: "mapE (\<lambda>i. let offset = 32 + i * 32
                    in if offset + 32 > length bs then Inl ErrInvalidData
                       else Inr (slice bs offset (offset + 32))) [0..<n] = Inr descs"
  proof -
    have "mapE (\<lambda>i. let offset = 32 + i * 32
                    in if offset + 32 > length bs then Inl ErrInvalidData
                       else Inr (slice bs offset (offset + 32))) [0..<n]
        = Inr (map (\<lambda>i. descs ! i) [0..<n])"
    proof (rule mapE_Inr)
      fix i assume "i \<in> set [0..<n]"
      then have i: "i < length descs" by (simp add: ld)
      then have "Suc i * 32 \<le> n * 32" by (simp add: ld)
      then have fits: "\<not> 32 + i * 32 + 32 > length bs" by (simp add: bs lH lcd)
      have "slice (H @ concat descs @ ([dbfHeaderTerminator] @ concat recs @ [dbfEOF]))
          (length H + i * 32) (length H + i * 32 + 32) = descs ! i"
        using dlen i by (rule slice_concat_blocks)
      then have "slice bs (32 + i * 32) (32 + i * 32 + 32) = descs ! i"
        by (simp only: bs lH)
      with fits show "(let offset = 32 + i * 32
                    in if offset + 32 > length bs then Inl ErrInvalidData
                       else Inr (slice bs offset (offset + 32))) = Inr (descs ! i)"
        by (simp only: Let_def if_False)
    qed
    moreover have "map (\<lambda>i. descs ! i) [0..<n] = descs"
      using map_nth [of descs] by (simp only: ld)
    ultimately show ?thesis by simp
  qed
  have fl_lt: "fieldLength ff ds i < 256" for i
    using fieldLength_bounds [of ff ds i] by simp
  have lens: "map (\<lambda>f. of_char (f ! 16)) descs = fls"
    by (simp add: descs_def fls_def fieldDescriptor_length_byte fl_lt)
  have names: "map (\<lambda>f. TrimSpace (takeWhile (\<lambda>c. c \<noteq> byte 0) (take 11 f))) descs
      = map (dbfDecodedHeader up) (headers ds)"
  proof -
    have "map (\<lambda>f. TrimSpace (takeWhile (\<lambda>c. c \<noteq> byte 0) (take 11 f))) descs
        = map (\<lambda>i. dbfDecodedHeader up (headers ds ! i)) [0..<length (headers ds)]"
      by (simp add: descs_def take_fieldName fieldName_decode dbfDecodedHeader_def n_def)
    then show ?thesis by (simp only: map_nth_fun)
  qed
  have "importDBF bs =
    importRecords bs (map (\<lambda>f. of_char (f ! 16)) descs) (33 + 32 * n) rsz [0..<length (data ds)]
      (NewDataset (map (\<lambda>f. TrimSpace (takeWhile (\<lambda>c. c \<noteq> byte 0) (take 11 f))) descs))"
    using len32 c h r _ fields by (rule importDBF_unfold) (use cols in \<open>simp add: n_def\<close>)
  then show ?thesis
    by (simp add: lens names rsz bs_def fls_def n_def)
qed

text \<open>
  Export followed by import, for values rendered in ASCII: every record then takes
  the bytes the header of the file announces.
\<close>

lemma importDBF_dbfBytes:
  assumes hs: "headers ds \<noteq> []" and cols: "length (headers ds) \<le> 1000"
    and size: "dbfRecordSize ff ds < 65536"
    and count: "length (data ds) < 4294967296"
    and rows: "\<forall>row \<in> set (data ds). length row = length (headers ds)"
    and ascii: "\<forall>row \<in> set (data ds). \<forall>v \<in> set row. isASCII (render ff v)"
  shows "importDBF (dbfBytes up ff now ds) =
    Inr \<lparr> headers = map (dbfDecodedHeader up) (headers ds),
          data = map (dbfDecodedRow ff) (data ds),
          tags = replicate (length (data ds)) [],
          title = [], dynamicCols = Map.empty, formatters = [], separators = Map.empty \<rparr>"
proof -
  define n where "n = length (headers ds)"
  define fls where "fls = map (fieldLength ff ds) [0..<n]"
  define rsz where "rsz = dbfRecordSize ff ds"
  define recs where "recs = map (dbfRecord ff fls) (data ds)"
  obtain pre where lpre: "length pre = 33 + 32 * n"
    and bs: "dbfBytes up ff now ds = pre @ concat recs @ [dbfEOF]"
    using dbfBytes_layout [of ds up ff now] unfolding recs_def fls_def n_def by blast
  have rsz_sum: "rsz = 1 + sum_list fls"
    by (simp add: rsz_def dbfRecordSize_def foldl_add_sum fls_def n_def)
  have rlen: "\<forall>r \<in> set recs. length r = rsz"
    using ascii by (auto simp: recs_def length_dbfRecord rsz_sum)
  have rpos: "0 < rsz" by (simp add: rsz_sum)
  have act: "\<forall>r \<in> set recs. r ! 0 \<noteq> dbfRecordDeleted"
    by (auto simp: recs_def dbfRecord_def dbfRecordActive_def dbfRecordDeleted_def)
  have parse: "\<And>row. row \<in> set (data ds) \<Longrightarrow>
      parseFields (dbfRecord ff fls row) fls 1 = dbfDecodedRow ff row"
    using parseFields_dbfRecord [of _ ds ff] rows ascii by (simp add: fls_def n_def)
  note parse' = parse [unfolded One_nat_def]
  define ds0 where "ds0 = NewDataset (map (dbfDecodedHeader up) (headers ds))"
  have h0: "headers ds0 \<noteq> []" using hs by (simp add: ds0_def NewDataset_def)
  have plen: "\<forall>r \<in> set recs. length (parseFields r fls 1) = length (headers ds0)"
    using rows by (auto simp: recs_def parse' dbfDecodedRow_def ds0_def NewDataset_def)
  have idx: "\<forall>i \<in> set [0..<length (data ds)]. i < length recs" by (simp add: recs_def)
  have "importRecords (pre @ concat recs @ [dbfEOF]) fls (length pre) rsz [0..<length (data ds)] ds0
    = Inr (ds0\<lparr> data := data ds0 @ map (\<lambda>i. parseFields (recs ! i) fls 1) [0..<length (data ds)],
               tags := tags ds0 @ replicate (length [0..<length (data ds)]) [] \<rparr>)"
    using rlen rpos act h0 plen idx by (rule importRecords_all)
  moreover have "map (\<lambda>i. parseFields (recs ! i) fls 1) [0..<length (data ds)]
      = map (dbfDecodedRow ff) (data ds)"
  proof -
    have "map (\<lambda>i. parseFields (recs ! i) fls 1) [0..<length (data ds)]
        = map (\<lambda>i. dbfDecodedRow ff (data ds ! i)) [0..<length (data ds)]"
      by (simp add: recs_def parse')
    then show ?thesis by (simp only: map_nth_fun)
  qed
  ultimately have "importRecords (dbfBytes up ff now ds) fls (33 + 32 * n) rsz
      [0..<length (data ds)] ds0
    = Inr (ds0\<lparr> data := map (dbfDecodedRow ff) (data ds),
               tags := replicate (length (data ds)) [] \<rparr>)"
    by (simp add: bs lpre ds0_def NewDataset_def)
  then show ?thesis
    unfolding importDBF_header [OF hs cols size count]
    by (simp add: fls_def n_def rsz_def ds0_def NewDataset_def)
qed

text \<open>
  Claim C10: \<open>exportDBF\<close> on a dataset with an empty header list returns
  \<open>ErrHeadersRequired\<close> and leaves the sink as it was: nothing is written.
\<close>

theorem exportDBF_headers_required:
  "headers ds = [] \<Longrightarrow> exportDBF up ff now ds w = (Some ErrHeadersRequired, w)"
  by (simp add: exportDBF_def)

theorem exportDBF_headers_required_witness:
  "headers (NewDataset []) = [] \<and>
   exportDBF id no_floats (2026, 11, 1) (NewDataset []) ''sink'' = (Some ErrHeadersRequired, ''sink'')"
  using exportDBF_headers_required [of "NewDataset []" id no_floats "(2026, 11, 1)" "''sink''"]
  by (simp add: NewDataset_def)

text \<open>
  The scenario of the specification: headers Name and Age with the row Alice, 30 come
  back as NAME and AGE with the row Alice, 30, as text.
\<close>

lemma dbf_scenario:
  "importDBF (snd (exportDBF up no_floats (2026, 11, 1) dbf_example [])) =
     Inr (dbf_example\<lparr> headers := [''NAME'', ''AGE''] \<rparr>)"
proof -
  have "importDBF (dbfBytes up no_floats (2026, 11, 1) dbf_example) =
    Inr \<lparr> headers = map (dbfDecodedHeader up) (headers dbf_example),
          data = map (dbfDecodedRow no_floats) (data dbf_example),
          tags = replicate (length (data dbf_example)) [],
          title = [], dynamicCols = Map.empty, formatters = [], separators = Map.empty \<rparr>"
    by (rule importDBF_dbfBytes)
       (simp_all add: dbf_example_def dbfRecordSize_def fieldLength_def isASCII_def)
  moreover have "map (dbfDecodedHeader up) (headers dbf_example) = [''NAME'', ''AGE'']"
    by (simp add: dbf_example_def dbfDecodedHeader_def ToUpper_def isASCII_def upper_byte_def
          char_of_def bit_Suc_0_iff byte_def asciiSpace_def)
  moreover have "map (dbfDecodedRow no_floats) (data dbf_example)
      = [[CString ''Alice'', CString ''30'']]"
    by (simp add: dbf_example_def dbfDecodedRow_def asciiSpace_def)
  ultimately show ?thesis
    by (simp add: exportDBF_def) (simp add: dbf_example_def)
qed

text \<open>
  A header of more than 10 bytes comes back cut: the field name of the format holds 10
  bytes, and \<open>exportDBF\<close> cuts the header to them.
\<close>

lemma dbf_long_header_truncated:
  "importDBF (snd (exportDBF up no_floats (2026, 11, 1) long_header_example [])) =
     Inr (long_header_example\<lparr> headers := [''LONGHEADER''] \<rparr>)"
proof -
  have "importDBF (dbfBytes up no_floats (2026, 11, 1) long_header_example) =
    Inr \<lparr> headers = map (dbfDecodedHeader up) (headers long_header_example),
          data = map (dbfDecodedRow no_floats) (data long_header_example),
          tags = replicate (length (data long_header_example)) [],
          title = [], dynamicCols = Map.empty, formatters = [], separators = Map.empty \<rparr>"
    by (rule importDBF_dbfBytes)
       (simp_all add: long_header_example_def dbfRecordSize_def fieldLength_def isASCII_def)
  moreover have "map (dbfDecodedHeader up) (headers long_header_example) = [''LONGHEADER'']"
    by (simp add: long_header_example_def dbfDecodedHeader_def ToUpper_def isASCII_def
          upper_byte_def char_of_def bit_Suc_0_iff byte_def asciiSpace_def)
  moreover have "map (dbfDecodedRow no_floats) (data long_header_example) = [[CString ''x'']]"
    by (simp add: long_header_example_def dbfDecodedRow_def asciiSpace_def)
  ultimately show ?thesis
    by (simp add: exportDBF_def) (simp add: long_header_example_def)
qed

lemma TrimFunc_accent: "TrimFunc [CHR 0xC3, CHR 0xA9] IsSpace = [CHR 0xC3, CHR 0xA9]"
  by (simp add: TrimFunc_def TrimLeftFunc_def TrimRightFunc_def indexFunc_def lastIndexFunc_def
        lastIndexFunc_loop.simps DecodeLastRuneInString_def lastRuneStart.simps RuneStart_def
        DecodeRuneInString.simps(2) IsSpace_def Let_def)

lemma TrimSpace_accent: "TrimSpace [CHR 0xC3, CHR 0xA9] = [CHR 0xC3, CHR 0xA9]"
  by (simp add: TrimFunc_accent)

lemma accent_records:
  "concat (map (dbfRecord no_floats (map (fieldLength no_floats accent_example)
       [0..<length (headers accent_example)])) (data accent_example)) @ [dbfEOF]
     = [CHR 0x20, CHR 0xC3, CHR 0xA9, CHR 0x20, CHR 0x20, CHR ''z'', CHR ''z'', dbfEOF]"
  by (simp add: accent_example_def fieldLength_def dbfRecord_def dbfRecordActive_def
        fieldValue_def padRight_def DecodeRuneInString.simps(2))

text \<open>
  Claim C1 at the input with header \<open>A\<close> and the two rows of \<open>accent_example\<close>, whose
  values both take 2 bytes: the field length is 2 and the record size written to the
  header of the file is 3, but the first value holds one code point and is padded with
  a space to 3 bytes, so the first record takes 4 bytes. \<open>importDBF\<close> reads records of 3
  bytes: the second record starts on the padding space, and the value \<open>"zz"\<close> comes back
  as \<open>"z"\<close>, which is not its trimmed rendering.
\<close>

theorem exportDBF_pads_code_points:
  "fst (exportDBF up no_floats (2026, 11, 1) accent_example []) = None \<and>
   get_uint16 (snd (exportDBF up no_floats (2026, 11, 1) accent_example [])) 10 = 3 \<and>
   drop 65 (snd (exportDBF up no_floats (2026, 11, 1) accent_example []))
     = [CHR 0x20, CHR 0xC3, CHR 0xA9, CHR 0x20, CHR 0x20, CHR ''z'', CHR ''z'', dbfEOF] \<and>
   importDBF (snd (exportDBF up no_floats (2026, 11, 1) accent_example [])) =
     Inr (accent_example\<lparr> data := [[CString [CHR 0xC3, CHR 0xA9]], [CString ''z'']] \<rparr>) \<and>
   map (map (\<lambda>v. CString (TrimSpace (render no_floats v)))) (data accent_example)
     = [[CString [CHR 0xC3, CHR 0xA9]], [CString ''zz'']]"
proof -
  define bs where "bs = dbfBytes up no_floats (2026, 11, 1) accent_example"
  obtain pre where lpre: "length pre = 65"
    and bs: "bs = pre @ [CHR 0x20, CHR 0xC3, CHR 0xA9, CHR 0x20, CHR 0x20, CHR ''z'', CHR ''z'', dbfEOF]"
    using dbfBytes_layout [of accent_example up no_floats "(2026, 11, 1)"]
    unfolding accent_records bs_def by (auto simp: accent_example_def)
  have sz: "dbfRecordSize no_floats accent_example = 3"
    by (simp add: dbfRecordSize_def accent_example_def fieldLength_def)
  have fl: "map (fieldLength no_floats accent_example) [0..<length (headers accent_example)] = [2]"
    by (simp add: accent_example_def fieldLength_def)
  have hd: "map (dbfDecodedHeader up) (headers accent_example) = [''A'']"
    by (simp add: accent_example_def dbfDecodedHeader_def ToUpper_def isASCII_def upper_byte_def
          char_of_def bit_Suc_0_iff byte_def asciiSpace_def)
  have cnt: "length (headers accent_example) = 1" "length (data accent_example) = 2"
    by (simp_all add: accent_example_def)
  note parsed = importDBF_header [of accent_example no_floats up "(2026, 11, 1)",
      unfolded fl sz hd, unfolded cnt]
  have "importDBF bs = importRecords bs [2] (33 + 32 * 1) 3 [0..<2] (NewDataset [''A''])"
    unfolding bs_def by (rule parsed) (simp_all add: accent_example_def)
  also have "\<dots> = Inr (accent_example\<lparr> data := [[CString [CHR 0xC3, CHR 0xA9]], [CString ''z'']] \<rparr>)"
    unfolding bs
    by (simp add: lpre slice_def dbfRecordDeleted_def Append_def Width_def NewDataset_def
          TrimFunc_accent asciiSpace_def accent_example_def upt_conv_Cons Let_def)
  finally have imp: "importDBF bs =
      Inr (accent_example\<lparr> data := [[CString [CHR 0xC3, CHR 0xA9]], [CString ''z'']] \<rparr>)" .
  have rs: "get_uint16 bs 10 = 3"
  proof -
    have "get_uint16 bs 10 = dbfRecordSize no_floats accent_example mod 2 ^ 16"
      unfolding bs_def dbfBytes_def Let_def dbfRecordSize_def by (rule dbfHeader_recordSize)
    then show ?thesis by (simp add: sz)
  qed
  have tr: "map (map (\<lambda>v. CString (TrimSpace (render no_floats v)))) (data accent_example)
     = [[CString [CHR 0xC3, CHR 0xA9]], [CString ''zz'']]"
    by (simp add: accent_example_def TrimFunc_accent asciiSpace_def)
  have ex: "exportDBF up no_floats (2026, 11, 1) accent_example [] = (None, bs)"
    by (simp add: exportDBF_def bs_def accent_example_def)
  show ?thesis
    unfolding ex using imp rs tr by (simp add: bs lpre)
qed


section \<open>The ODS codec: export followed by import\<close>

lemma length_importRow: "length (importRow n cells) = n"
  by (simp add: importRow_def)

lemma ImportODS_rows_all:
  "headers ds \<noteq> [] \<Longrightarrow> length (headers ds) = n \<Longrightarrow>
     ImportODS_rows n rs ds =
       Inr (ds\<lparr> data := data ds @ map (importRow n) rs,
                 tags := tags ds @ replicate (length rs) [] \<rparr>)"
proof (induction rs arbitrary: ds)
  case Nil
  then show ?case by simp
next
  case (Cons r rs)
  define ds' where "ds' = ds\<lparr> data := data ds @ [importRow n r], tags := tags ds @ [[]] \<rparr>"
  from Cons.prems have "0 < n" by auto
  with Cons.prems have app: "Append ds (importRow n r) [] = (None, ds')"
    by (simp add: Append_def Width_def length_importRow ds'_def)
  from Cons.prems have "headers ds' \<noteq> []" "length (headers ds') = n"
    by (simp_all add: ds'_def)
  from Cons.IH [OF this] show ?case
    by (simp add: app) (simp add: ds'_def)
qed

text \<open>
  The text read back from XML is empty only for the empty string, and it is the string
  itself when nothing in it is replaced.
\<close>

lemma xmlText_eq_Nil: "xmlText s = [] \<longleftrightarrow> s = []"
proof (cases s)
  case Nil
  then show ?thesis by simp
next
  case (Cons c cs)
  have "1 \<le> snd (DecodeRuneInString (c # cs))"
    using DecodeRuneInString_width [of "c # cs"] by simp
  then have "take (snd (DecodeRuneInString (c # cs))) (c # cs) \<noteq> []"
    by (cases "snd (DecodeRuneInString (c # cs))") simp_all
  with Cons show ?thesis by simp
qed

lemma xmlSafe_xmlText: "xmlSafe s \<Longrightarrow> xmlText s = s"
proof (induction s rule: xmlText.induct)
  case 1
  then show ?case by simp
next
  case (2 c cs)
  define w where "w = snd (DecodeRuneInString (c # cs))"
  have w: "1 \<le> w" unfolding w_def using DecodeRuneInString_width [of "c # cs"] by simp
  from "2.prems" have nr: "\<not> xmlReplaced (c # cs)" and rest: "xmlSafe (drop (w - 1) cs)"
    by (simp_all add: w_def)
  from "2.IH" rest have ih: "xmlText (drop (w - 1) cs) = drop (w - 1) cs"
    by (simp add: w_def)
  from w have "drop (w - 1) cs = drop w (c # cs)" by (cases w) simp_all
  with nr ih have "xmlText (c # cs) = take w (c # cs) @ drop w (c # cs)"
    by (simp add: w_def)
  then show ?case by (simp only: append_take_drop_id)
qed

lemma sName_sheet:
  "title d \<noteq> [] \<Longrightarrow> sName (xmlDecodeTable (odsSheetTable ff d)) = xmlText (title d)"
  by (simp add: xmlDecodeTable_def odsSheetTable_def Let_def)

lemma find_sheet:
  assumes "ds \<in> set sheets" "distinct (map (\<lambda>d. xmlText (title d)) sheets)"
    "\<forall>d \<in> set sheets. title d \<noteq> []"
  shows "find (\<lambda>t. xmlText (title ds) = [] \<or> sName t = xmlText (title ds))
           (map xmlDecodeTable (map (odsSheetTable ff) sheets))
         = Some (xmlDecodeTable (odsSheetTable ff ds))"
  using assms
proof (induction sheets)
  case Nil
  then show ?case by simp
next
  case (Cons d sheets)
  from Cons.prems have nd: "title d \<noteq> []" and nds: "title ds \<noteq> []" by auto
  from nds have nx: "xmlText (title ds) \<noteq> []" by (simp add: xmlText_eq_Nil)
  show ?case
  proof (cases "d = ds")
    case True
    with nds show ?thesis by (simp add: sName_sheet)
  next
    case False
    with Cons.prems have mem: "ds \<in> set sheets" by simp
    with Cons.prems have "xmlText (title d) \<noteq> xmlText (title ds)" by auto
    moreover from Cons.prems mem have
      "find (\<lambda>t. xmlText (title ds) = [] \<or> sName t = xmlText (title ds))
           (map xmlDecodeTable (map (odsSheetTable ff) sheets))
         = Some (xmlDecodeTable (odsSheetTable ff ds))"
      by (intro Cons.IH) simp_all
    ultimately show ?thesis using nd nx by (simp add: sName_sheet)
  qed
qed

lemma cellString_header:
  "cellString (xmlDecodeCell (odsHeaderCell h)) = TrimSpace (xmlText h)"
  by (simp add: cellString_def xmlDecodeCell_def odsHeaderCell_def Let_def)

lemma cellString_data:
  "CString (cellString (xmlDecodeCell (odsDataCell ff v))) = odsDecodedCell ff v"
  by (cases v) (simp_all add: cellString_def xmlDecodeCell_def odsDecodedCell_def Let_def)

lemma importRow_data:
  "importRow n (map xmlDecodeCell (map (odsDataCell ff) row)) = odsDecodedRow ff n row"
  by (simp add: importRow_def odsDecodedRow_def take_map cellString_data)

lemma odsDecodedRow_full:
  "length row = n \<Longrightarrow> odsDecodedRow ff n row = map (odsDecodedCell ff) row"
  by (simp add: odsDecodedRow_def)

lemma sRows_sheet:
  "headers ds \<noteq> [] \<Longrightarrow>
     sRows (xmlDecodeTable (odsSheetTable ff ds)) =
       map xmlDecodeCell (map odsHeaderCell (headers ds))
         # map (\<lambda>row. map xmlDecodeCell (map (odsDataCell ff) row)) (data ds)"
  by (simp add: xmlDecodeTable_def odsSheetTable_def Let_def comp_def)

lemma ImportODS_exportODSSheets:
  assumes "ds \<in> set sheets" "distinct (map (\<lambda>d. xmlText (title d)) sheets)"
    and "\<forall>d \<in> set sheets. title d \<noteq> []" and "headers ds \<noteq> []"
  shows "ImportODS (exportODSSheets ff manifest styles sheets) (xmlText (title ds)) =
    Inr \<lparr> headers = map (\<lambda>h. TrimSpace (xmlText h)) (headers ds),
          data = map (odsDecodedRow ff (length (headers ds))) (data ds),
          tags = replicate (length (data ds)) [],
          title = xmlText (title ds), dynamicCols = Map.empty, formatters = [],
          separators = Map.empty \<rparr>"
proof -
  define t where "t = xmlDecodeTable (odsSheetTable ff ds)"
  define hs where "hs = map cellString (sRows t ! 0)"
  from assms(1,3) have nt: "title ds \<noteq> []" by simp
  have rows: "sRows t = map xmlDecodeCell (map odsHeaderCell (headers ds))
         # map (\<lambda>row. map xmlDecodeCell (map (odsDataCell ff) row)) (data ds)"
    unfolding t_def using assms(4) by (rule sRows_sheet)
  have hs: "hs = map (\<lambda>h. TrimSpace (xmlText h)) (headers ds)"
    by (simp add: hs_def rows comp_def cellString_header)
  have name: "sName t = xmlText (title ds)" unfolding t_def using nt by (rule sName_sheet)
  define ds0 where "ds0 = (NewDataset hs)\<lparr> title := sName t \<rparr>"
  have h0: "headers ds0 \<noteq> []" "length (headers ds0) = length hs"
    using assms(4) by (simp_all add: ds0_def NewDataset_def hs)
  have dec: "map (importRow (length hs)) (tl (sRows t))
      = map (odsDecodedRow ff (length (headers ds))) (data ds)"
    by (simp add: rows hs importRow_data [unfolded map_map comp_def] comp_def)
  have "ImportODS (exportODSSheets ff manifest styles sheets) (xmlText (title ds))
      = ImportODS_rows (length hs) (tl (sRows t)) ds0"
    by (simp add: ImportODS_def exportODSSheets_def find_sheet [OF assms(1,2,3), unfolded map_map] Let_def
          t_def [symmetric] rows [THEN arg_cong, of length] hs_def ds0_def)
  also have "\<dots> = Inr (ds0\<lparr> data := data ds0 @ map (importRow (length hs)) (tl (sRows t)),
                 tags := tags ds0 @ replicate (length (tl (sRows t))) [] \<rparr>)"
    using h0 by (rule ImportODS_rows_all)
  finally have res: "ImportODS (exportODSSheets ff manifest styles sheets) (xmlText (title ds))
      = Inr (ds0\<lparr> data := data ds0 @ map (importRow (length hs)) (tl (sRows t)),
                 tags := tags ds0 @ replicate (length (tl (sRows t))) [] \<rparr>)" .
  show ?thesis unfolding res dec by (simp add: ds0_def NewDataset_def hs name rows)
qed

lemma odsDecodedCell_trimmed:
  assumes "xmlSafe (render ff v)"
    and "TrimSpace (render ff v) \<noteq> [] \<or> kind_of v \<in> {KNil, KString, KOther}"
  shows "odsDecodedCell ff v = CString (TrimSpace (render ff v))"
proof -
  have x: "xmlText (render ff v) = render ff v" using assms(1) by (rule xmlSafe_xmlText)
  from assms(2) have "\<not> (TrimSpace (render ff v) = []
      \<and> kind_of v \<in> {KBool, KInt, KInt64, KFloat64, KNum})"
    by auto
  then show ?thesis unfolding odsDecodedCell_def x by (simp only: if_False)
qed

text \<open>
  Claim C5, as stated, fails on text with surrounding white space: the header \<open>" a"\<close>
  comes back as \<open>"a"\<close> and the cell \<open>" x"\<close> as \<open>"x"\<close>, which are not the source header
  and the rendering of the source cell.
\<close>

theorem ods_trims_text:
  "ImportODS (exportODSSheets no_floats [] [] [padded_example]) ''T'' =
     Inr (padded_example\<lparr> headers := [''a''], data := [[CString ''x'']] \<rparr>) \<and>
   headers padded_example = ['' a''] \<and>
   map (map (render no_floats)) (data padded_example) = [['' x'']]"
proof -
  have x: "xmlText ''T'' = ''T''" "xmlText '' a'' = '' a''" "xmlText '' x'' = '' x''"
    by (simp_all add: xmlReplaced_def isInCharacterRange_def DecodeRuneInString.simps(2))
  have "ImportODS (exportODSSheets no_floats [] [] [padded_example])
      (xmlText (title padded_example)) =
    Inr \<lparr> headers = map (\<lambda>h. TrimSpace (xmlText h)) (headers padded_example),
          data = map (odsDecodedRow no_floats (length (headers padded_example)))
                   (data padded_example),
          tags = replicate (length (data padded_example)) [],
          title = xmlText (title padded_example), dynamicCols = Map.empty, formatters = [],
          separators = Map.empty \<rparr>"
    by (rule ImportODS_exportODSSheets) (simp_all add: padded_example_def)
  then show ?thesis
    by (simp add: padded_example_def odsDecodedRow_def odsDecodedCell_def x asciiSpace_def
          del: xmlText.simps)
qed

text \<open>
  Text that XML cannot carry comes back changed as well: the control character of the
  header \<open>"a\x01"\<close> and the byte \<open>FF\<close> of the cell, which is not UTF-8, each come back
  as U+FFFD, the bytes EF BF BD.
\<close>

lemma ods_replaces_text:
  "ImportODS (exportODSSheets no_floats [] [] [control_example]) ''T'' =
     Inr (control_example\<lparr> headers := [[CHR ''a'', CHR 0xEF, CHR 0xBF, CHR 0xBD]],
            data := [[CString [CHR 0xEF, CHR 0xBF, CHR 0xBD]]] \<rparr>)"
proof -
  have x: "xmlText ''T'' = ''T''" "xmlText [CHR ''a'', CHR 0x01] = [CHR ''a'', CHR 0xEF, CHR 0xBF, CHR 0xBD]"
    "xmlText [CHR 0xFF] = [CHR 0xEF, CHR 0xBF, CHR 0xBD]"
    by (simp_all add: xmlReplaced_def isInCharacterRange_def DecodeRuneInString.simps(2)
          RuneError_def)
  have t: "TrimFunc [CHR 0xEF, CHR 0xBF, CHR 0xBD] IsSpace = [CHR 0xEF, CHR 0xBF, CHR 0xBD]"
    by (simp add: TrimFunc_def TrimLeftFunc_def TrimRightFunc_def indexFunc_def lastIndexFunc_def
        lastIndexFunc_loop.simps DecodeLastRuneInString_def lastRuneStart.simps RuneStart_def
        DecodeRuneInString.simps(2) IsSpace_def Let_def)
  have t': "TrimRightFunc [CHR ''a'', CHR 0xEF, CHR 0xBF, CHR 0xBD] IsSpace
      = [CHR ''a'', CHR 0xEF, CHR 0xBF, CHR 0xBD]"
    by (simp add: TrimRightFunc_def lastIndexFunc_def
        lastIndexFunc_loop.simps DecodeLastRuneInString_def lastRuneStart.simps RuneStart_def
        DecodeRuneInString.simps(2) IsSpace_def Let_def)
  have "ImportODS (exportODSSheets no_floats [] [] [control_example])
      (xmlText (title control_example)) =
    Inr \<lparr> headers = map (\<lambda>h. TrimSpace (xmlText h)) (headers control_example),
          data = map (odsDecodedRow no_floats (length (headers control_example)))
                   (data control_example),
          tags = replicate (length (data control_example)) [],
          title = xmlText (title control_example), dynamicCols = Map.empty, formatters = [],
          separators = Map.empty \<rparr>"
    by (rule ImportODS_exportODSSheets) (simp_all add: control_example_def)
  then show ?thesis
    by (simp add: control_example_def odsDecodedRow_def odsDecodedCell_def x t t' asciiSpace_def
          del: xmlText.simps)
qed

text \<open>
  Text outside ASCII that XML can carry comes back trimmed of the white space of
  Unicode: the title and the header of \<open>accents_example\<close> come back unchanged, and the
  cell, which starts with a no-break space (U+00A0) and ends with a space, comes back
  as its letter.
\<close>

lemma ods_accents:
  "ImportODS (exportODSSheets no_floats [] [] [accents_example]) (title accents_example) =
     Inr (accents_example\<lparr> data := [[CString [CHR 0xC3, CHR 0xA9]]] \<rparr>)"
proof -
  have x: "xmlText (title accents_example) = title accents_example"
    "xmlText [CHR 0xC3, CHR 0x85, CHR ''r''] = [CHR 0xC3, CHR 0x85, CHR ''r'']"
    "xmlText [CHR 0xC2, CHR 0xA0, CHR 0xC3, CHR 0xA9, CHR 0x20]
       = [CHR 0xC2, CHR 0xA0, CHR 0xC3, CHR 0xA9, CHR 0x20]"
    by (simp_all add: accents_example_def xmlReplaced_def isInCharacterRange_def
          DecodeRuneInString.simps(2) RuneError_def)
  have t: "TrimFunc [CHR 0xC3, CHR 0x85, CHR ''r''] IsSpace = [CHR 0xC3, CHR 0x85, CHR ''r'']"
    by (simp add: TrimFunc_def TrimLeftFunc_def TrimRightFunc_def indexFunc_def lastIndexFunc_def
        lastIndexFunc_loop.simps DecodeLastRuneInString_def lastRuneStart.simps RuneStart_def
        DecodeRuneInString.simps(2) IsSpace_def Let_def)
  have t': "TrimFunc [CHR 0xC2, CHR 0xA0, CHR 0xC3, CHR 0xA9, CHR 0x20] IsSpace
      = [CHR 0xC3, CHR 0xA9]"
    by (simp add: TrimFunc_def TrimLeftFunc_def TrimRightFunc_def indexFunc_def lastIndexFunc_def
        lastIndexFunc_loop.simps DecodeLastRuneInString_def lastRuneStart.simps RuneStart_def
        DecodeRuneInString.simps(2) IsSpace_def Let_def)
  have "ImportODS (exportODSSheets no_floats [] [] [accents_example])
      (xmlText (title accents_example)) =
    Inr \<lparr> headers = map (\<lambda>h. TrimSpace (xmlText h)) (headers accents_example),
          data = map (odsDecodedRow no_floats (length (headers accents_example)))
                   (data accents_example),
          tags = replicate (length (data accents_example)) [],
          title = xmlText (title accents_example), dynamicCols = Map.empty, formatters = [],
          separators = Map.empty \<rparr>"
    by (rule ImportODS_exportODSSheets) (simp_all add: accents_example_def)
  then show ?thesis
    unfolding x(1)
    by (simp add: accents_example_def odsDecodedRow_def odsDecodedCell_def x(2,3) t t'
          del: xmlText.simps)
qed

text \<open>
  Claim C5, amended: for a collection of datasets with non-empty titles and non-empty
  headers, the titles distinct as read back from XML, decoding the exported archive by
  the read-back title of any dataset of the collection returns a dataset with that
  title, the source headers read back and trimmed, the same row count, and one row per
  source row with as many cells as there are headers: the cells \<open>odsDecodedCell\<close> of the
  source cells (strings: the rendering read back and trimmed, or the rendering read
  back when the trimmed text is empty and the value is a number or a boolean), nil for
  each missing cell. When the title, the headers and the renderings are valid UTF-8 of
  characters in the range of XML, the rows have the length of the header list, and
  every cell has a non-empty trimmed rendering or is a string, nil or of a kind
  exported as a string, the dataset is returned for the title itself, with that title,
  the trimmed source headers and the trimmed renderings of the source cells.
\<close>

theorem ods_roundtrip:
  assumes "distinct (map (\<lambda>d. xmlText (title d)) sheets)"
    and "\<forall>d \<in> set sheets. title d \<noteq> [] \<and> headers d \<noteq> []"
  shows "\<forall>ds \<in> set sheets.
    \<exists>r. ImportODS (exportODSSheets ff manifest styles sheets) (xmlText (title ds)) = Inr r \<and>
      title r = xmlText (title ds) \<and>
      headers r = map (\<lambda>h. TrimSpace (xmlText h)) (headers ds) \<and>
      Height r = Height ds \<and>
      data r = map (odsDecodedRow ff (length (headers ds))) (data ds) \<and>
      (xmlSafe (title ds) \<and> (\<forall>h \<in> set (headers ds). xmlSafe h) \<and>
       (\<forall>row \<in> set (data ds). length row = length (headers ds) \<and>
          (\<forall>v \<in> set row. xmlSafe (render ff v) \<and>
             (TrimSpace (render ff v) \<noteq> [] \<or> kind_of v \<in> {KNil, KString, KOther}))) \<longrightarrow>
        ImportODS (exportODSSheets ff manifest styles sheets) (title ds) = Inr r \<and>
        title r = title ds \<and>
        headers r = map TrimSpace (headers ds) \<and>
        data r = map (map (\<lambda>v. CString (TrimSpace (render ff v)))) (data ds))"
proof
  fix ds assume ds: "ds \<in> set sheets"
  from assms(2) have t: "\<forall>d \<in> set sheets. title d \<noteq> []" by simp
  from assms(2) ds have h: "headers ds \<noteq> []" by simp
  define r where "r = \<lparr> headers = map (\<lambda>h. TrimSpace (xmlText h)) (headers ds),
          data = map (odsDecodedRow ff (length (headers ds))) (data ds),
          tags = replicate (length (data ds)) [],
          title = xmlText (title ds), dynamicCols = Map.empty, formatters = [],
          separators = Map.empty \<rparr>"
  have imp: "ImportODS (exportODSSheets ff manifest styles sheets) (xmlText (title ds)) = Inr r"
    unfolding r_def using ds assms(1) t h by (rule ImportODS_exportODSSheets)
  have gen: "title r = xmlText (title ds)"
    "headers r = map (\<lambda>h. TrimSpace (xmlText h)) (headers ds)"
    "Height r = Height ds"
    "data r = map (odsDecodedRow ff (length (headers ds))) (data ds)"
    by (simp_all add: r_def Height_def)
  have safe: "ImportODS (exportODSSheets ff manifest styles sheets) (title ds) = Inr r \<and>
        title r = title ds \<and>
        headers r = map TrimSpace (headers ds) \<and>
        data r = map (map (\<lambda>v. CString (TrimSpace (render ff v)))) (data ds)"
    if s: "xmlSafe (title ds) \<and> (\<forall>h \<in> set (headers ds). xmlSafe h) \<and>
       (\<forall>row \<in> set (data ds). length row = length (headers ds) \<and>
          (\<forall>v \<in> set row. xmlSafe (render ff v) \<and>
             (TrimSpace (render ff v) \<noteq> [] \<or> kind_of v \<in> {KNil, KString, KOther})))"
  proof -
    from s have st: "xmlText (title ds) = title ds" by (simp add: xmlSafe_xmlText)
    from s have sh: "map (\<lambda>h. TrimSpace (xmlText h)) (headers ds) = map TrimSpace (headers ds)"
      by (simp add: xmlSafe_xmlText)
    have sd: "map (odsDecodedRow ff (length (headers ds))) (data ds)
        = map (map (\<lambda>v. CString (TrimSpace (render ff v)))) (data ds)"
    proof (rule map_cong [OF refl])
      fix row assume row: "row \<in> set (data ds)"
      with s have l: "length row = length (headers ds)" by blast
      from s row have "\<forall>v \<in> set row. odsDecodedCell ff v = CString (TrimSpace (render ff v))"
        using odsDecodedCell_trimmed [of ff] by blast
      then have "map (odsDecodedCell ff) row = map (\<lambda>v. CString (TrimSpace (render ff v))) row"
        by simp
      with l show "odsDecodedRow ff (length (headers ds)) row
          = map (\<lambda>v. CString (TrimSpace (render ff v))) row"
        by (simp add: odsDecodedRow_full)
    qed
    from imp gen st sh sd show ?thesis by simp
  qed
  from imp gen safe show "\<exists>r. ImportODS (exportODSSheets ff manifest styles sheets) (xmlText (title ds)) = Inr r \<and>
      title r = xmlText (title ds) \<and>
      headers r = map (\<lambda>h. TrimSpace (xmlText h)) (headers ds) \<and>
      Height r = Height ds \<and>
      data r = map (odsDecodedRow ff (length (headers ds))) (data ds) \<and>
      (xmlSafe (title ds) \<and> (\<forall>h \<in> set (headers ds). xmlSafe h) \<and>
       (\<forall>row \<in> set (data ds). length row = length (headers ds) \<and>
          (\<forall>v \<in> set row. xmlSafe (render ff v) \<and>
             (TrimSpace (render ff v) \<noteq> [] \<or> kind_of v \<in> {KNil, KString, KOther}))) \<longrightarrow>
        ImportODS (exportODSSheets ff manifest styles sheets) (title ds) = Inr r \<and>
        title r = title ds \<and>
        headers r = map TrimSpace (headers ds) \<and>
        data r = map (map (\<lambda>v. CString (TrimSpace (render ff v)))) (data ds))"
    by blast
qed

theorem ods_roundtrip_witness:
  "distinct (map (\<lambda>d. xmlText (title d)) [people_example, cities_example]) \<and>
   list_all (\<lambda>d. title d \<noteq> [] \<and> headers d \<noteq> []) [people_example, cities_example] \<and>
   list_all (\<lambda>d. xmlSafe (title d) \<and> list_all xmlSafe (headers d) \<and>
       list_all (\<lambda>row. length row = length (headers d) \<and>
         list_all (\<lambda>v. xmlSafe (render no_floats v) \<and>
           (TrimSpace (render no_floats v) \<noteq> [] \<or> kind_of v \<in> {KNil, KString, KOther})) row)
         (data d))
     [people_example, cities_example] \<and>
   \<not> isl (ImportODS (exportODSSheets no_floats [] [] [people_example, cities_example])
     ''People'') \<and>
   title (projr (ImportODS (exportODSSheets no_floats [] [] [people_example, cities_example])
     ''People'')) = ''People'' \<and>
   headers (projr (ImportODS (exportODSSheets no_floats [] [] [people_example, cities_example])
     ''People'')) = [''Name'', ''Age''] \<and>
   data (projr (ImportODS (exportODSSheets no_floats [] [] [people_example, cities_example])
     ''People'')) = [[CString ''Alice'', CString ''30''], [CString ''Bob'', CString ''25'']] \<and>
   \<not> isl (ImportODS (exportODSSheets no_floats [] [] [people_example, cities_example])
     ''Cities'') \<and>
   headers (projr (ImportODS (exportODSSheets no_floats [] [] [people_example, cities_example])
     ''Cities'')) = [''City''] \<and>
   data (projr (ImportODS (exportODSSheets no_floats [] [] [people_example, cities_example])
     ''Cities'')) = [[CString ''Oslo'']]"
proof -
  have x: "xmlText ''People'' = ''People''" "xmlText ''Cities'' = ''Cities''"
    by (simp_all add: xmlReplaced_def isInCharacterRange_def DecodeRuneInString.simps(2))
  have a: "distinct (map (\<lambda>d. xmlText (title d)) [people_example, cities_example])"
    by (simp add: people_example_def cities_example_def x del: xmlText.simps)
  have b: "list_all (\<lambda>d. title d \<noteq> [] \<and> headers d \<noteq> []) [people_example, cities_example]"
    by (simp add: people_example_def cities_example_def)
  have d: "list_all (\<lambda>d. xmlSafe (title d) \<and> list_all xmlSafe (headers d) \<and>
       list_all (\<lambda>row. length row = length (headers d) \<and>
         list_all (\<lambda>v. xmlSafe (render no_floats v) \<and>
           (TrimSpace (render no_floats v) \<noteq> [] \<or> kind_of v \<in> {KNil, KString, KOther})) row)
         (data d))
     [people_example, cities_example]"
    by (simp add: people_example_def cities_example_def show_int_def digits.simps
          xmlReplaced_def isInCharacterRange_def DecodeRuneInString.simps(2) asciiSpace_def)
  have tp: "title people_example = ''People''" and tc: "title cities_example = ''Cities''"
    by (simp_all add: people_example_def cities_example_def)
  note rt = ods_roundtrip [of "[people_example, cities_example]" no_floats "[]" "[]"]
  have e: "\<forall>ds \<in> set [people_example, cities_example].
    \<exists>r. ImportODS (exportODSSheets no_floats [] [] [people_example, cities_example]) (title ds)
          = Inr r \<and>
      title r = title ds \<and>
      headers r = map TrimSpace (headers ds) \<and>
      data r = map (map (\<lambda>v. CString (TrimSpace (render no_floats v)))) (data ds)"
    using rt a b d by (simp add: list_all_iff) blast
  from e obtain rp where rp:
    "ImportODS (exportODSSheets no_floats [] [] [people_example, cities_example]) ''People''
       = Inr rp"
    "title rp = ''People''" "headers rp = map TrimSpace (headers people_example)"
    "data rp = map (map (\<lambda>v. CString (TrimSpace (render no_floats v)))) (data people_example)"
    by (auto simp: tp)
  from e obtain rc where rc:
    "ImportODS (exportODSSheets no_floats [] [] [people_example, cities_example]) ''Cities''
       = Inr rc"
    "headers rc = map TrimSpace (headers cities_example)"
    "data rc = map (map (\<lambda>v. CString (TrimSpace (render no_floats v)))) (data cities_example)"
    by (auto simp: tc)
  have hp: "map TrimSpace (headers people_example) = [''Name'', ''Age'']"
    by (simp add: people_example_def asciiSpace_def)
  have dp: "map (map (\<lambda>v. CString (TrimSpace (render no_floats v)))) (data people_example)
      = [[CString ''Alice'', CString ''30''], [CString ''Bob'', CString ''25'']]"
    by (simp add: people_example_def asciiSpace_def show_int_def digits.simps)
  have hc: "map TrimSpace (headers cities_example) = [''City'']"
    by (simp add: cities_example_def asciiSpace_def)
  have dc: "map (map (\<lambda>v. CString (TrimSpace (render no_floats v)))) (data cities_example)
      = [[CString ''Oslo'']]"
    by (simp add: cities_example_def asciiSpace_def)
  from a b d rp rc hp dp hc dc show ?thesis by simp
qed


section \<open>Sort\<close>

lemma bubble_insert_left:
  "bubble cmp 0 (ys @ x # zs) (length ys) = rev (insert_left cmp x (rev ys)) @ zs"
proof (induction ys arbitrary: zs rule: rev_induct)
  case Nil
  then show ?case by simp
next
  case (snoc p ys)
  have n1: "(ys @ [p] @ x # zs) ! Suc (length ys) = x"
    by (simp add: nth_append)
  have n0: "(ys @ [p] @ x # zs) ! length ys = p"
    by (simp add: nth_append)
  have upd: "(ys @ [p] @ x # zs)[Suc (length ys) := p, length ys := x] = ys @ x # p # zs"
    by (simp add: list_update_append)
  show ?case
  proof (cases "cmp x p < 0")
    case True
    with snoc [of "p # zs"] show ?thesis
      using n1 n0 upd by (simp add: exchange_def)
  next
    case False
    then show ?thesis using n1 n0 by simp
  qed
qed

lemma length_insert_left: "length (insert_left cmp x rs) = Suc (length rs)"
  by (induction rs) simp_all

lemma set_insert_left: "set (insert_left cmp x rs) = insert x (set rs)"
  by (induction rs) auto

lemma foldl_bubble:
  "foldl (bubble cmp 0) (acc @ rest) [length acc..<length acc + length rest]
     = rev (foldl (\<lambda>r x. insert_left cmp x r) (rev acc) rest)"
proof (induction rest arbitrary: acc)
  case Nil
  then show ?case by simp
next
  case (Cons x rest)
  define acc' where "acc' = rev (insert_left cmp x (rev acc))"
  have l: "length acc' = Suc (length acc)" by (simp add: acc'_def length_insert_left)
  have "[length acc..<length acc + Suc (length rest)]
      = length acc # [Suc (length acc)..<length acc + Suc (length rest)]"
    by (rule upt_conv_Cons) simp
  then have "[length acc..<length acc + length (x # rest)]
      = length acc # [length acc'..<length acc' + length rest]"
    by (simp add: l del: upt_Suc)
  then have "foldl (bubble cmp 0) (acc @ x # rest) [length acc..<length acc + length (x # rest)]
      = foldl (bubble cmp 0) (acc' @ rest) [length acc'..<length acc' + length rest]"
    by (simp add: bubble_insert_left acc'_def)
  also have "\<dots> = rev (foldl (\<lambda>r x. insert_left cmp x r) (rev acc') rest)"
    by (rule Cons.IH)
  finally show ?case by (simp add: acc'_def)
qed

lemma insertionSortCmpFunc_functional:
  "insertionSortCmpFunc xs 0 (length xs) cmp = rev (foldl (\<lambda>r x. insert_left cmp x r) [] xs)"
proof (cases xs)
  case Nil
  then show ?thesis by (simp add: insertionSortCmpFunc_def)
next
  case (Cons x rest)
  have "foldl (bubble cmp 0) ([x] @ rest) [length [x]..<length [x] + length rest]
      = rev (foldl (\<lambda>r x. insert_left cmp x r) (rev [x]) rest)"
    by (rule foldl_bubble)
  then show ?thesis by (simp add: insertionSortCmpFunc_def Cons)
qed

lemma insert_left_split:
  "\<exists>B A. rs = B @ A \<and> insert_left cmp x rs = B @ x # A \<and> (\<forall>b \<in> set B. cmp x b < 0)"
proof (induction rs)
  case Nil
  then show ?case by simp
next
  case (Cons p rs)
  show ?case
  proof (cases "cmp x p < 0")
    case True
    from Cons obtain B A where "rs = B @ A" "insert_left cmp x rs = B @ x # A"
      "\<forall>b \<in> set B. cmp x b < 0" by blast
    with True have "p # rs = (p # B) @ A \<and> insert_left cmp x (p # rs) = (p # B) @ x # A \<and>
        (\<forall>b \<in> set (p # B). cmp x b < 0)" by simp
    then show ?thesis by blast
  next
    case False
    then have "p # rs = [] @ (p # rs) \<and> insert_left cmp x (p # rs) = [] @ x # (p # rs) \<and>
        (\<forall>b \<in> set []. cmp x b < 0)" by simp
    then show ?thesis by blast
  qed
qed

lemma stable_step:
  assumes "filter (\<lambda>z. z = i \<or> z = j) (A @ B @ x # R) = [i, j]"
    and "\<forall>b \<in> set B. cmp x b < 0" and "\<not> cmp j i < 0"
  shows "filter (\<lambda>z. z = i \<or> z = j) (A @ x # B @ R) = [i, j]"
proof -
  define Q where "Q = (\<lambda>z. z = i \<or> z = j)"
  have a1: "filter Q (A @ B @ x # R) = [i, j]" using assms(1) unfolding Q_def .
  have e: "filter Q A @ filter Q B @ (if Q x then [x] else []) @ filter Q R = [i, j]"
    using a1 by (cases "Q x") simp_all
  have g: "filter Q (A @ x # B @ R)
      = filter Q A @ (if Q x then [x] else []) @ filter Q B @ filter Q R"
    by simp
  have "filter Q (A @ x # B @ R) = [i, j]"
  proof (cases "Q x \<and> filter Q B \<noteq> []")
    case False
    with e show ?thesis unfolding g by (cases "Q x") auto
  next
    case True
    from e True have "length (filter Q A @ filter Q B @ [x] @ filter Q R) = length [i, j]"
      by simp
    then have len: "length (filter Q A) + length (filter Q B) + length (filter Q R) = 1"
      by simp
    from True have pos: "0 < length (filter Q B)" by simp
    from len pos have "length (filter Q A) = 0 \<and> length (filter Q R) = 0
        \<and> length (filter Q B) = 1"
      by linarith
    then have z: "filter Q A = []" "filter Q R = []" and "length (filter Q B) = 1"
      by simp_all
    with e True have "filter Q B @ [x] = [i, j]" by simp
    then have fb: "filter Q B = [i]" and xj: "x = j" by (simp_all add: append_eq_Cons_conv)
    have "set (filter Q B) \<subseteq> set B" by simp
    with fb have "i \<in> set B" by simp
    with assms(2) xj have "cmp j i < 0" by simp
    with assms(3) show ?thesis by simp
  qed
  then show ?thesis unfolding Q_def .
qed

lemma foldl_insert_left_stable:
  assumes "\<not> cmp j i < 0"
  shows "filter (\<lambda>z. z = i \<or> z = j) (rev racc @ rest) = [i, j] \<Longrightarrow>
     filter (\<lambda>z. z = i \<or> z = j) (rev (foldl (\<lambda>r x. insert_left cmp x r) racc rest)) = [i, j]"
proof (induction rest arbitrary: racc)
  case Nil
  then show ?case by simp
next
  case (Cons x rest)
  obtain B A where s: "racc = B @ A" "insert_left cmp x racc = B @ x # A"
    "\<forall>b \<in> set B. cmp x b < 0"
    using insert_left_split [of racc cmp x] by blast
  from Cons.prems s(1) have "filter (\<lambda>z. z = i \<or> z = j) (rev A @ rev B @ x # rest) = [i, j]"
    by simp
  moreover from s(3) have "\<forall>b \<in> set (rev B). cmp x b < 0" by simp
  ultimately have "filter (\<lambda>z. z = i \<or> z = j) (rev A @ x # rev B @ rest) = [i, j]"
    using assms by (rule stable_step)
  then have "filter (\<lambda>z. z = i \<or> z = j) (rev (insert_left cmp x racc) @ rest) = [i, j]"
    by (simp add: s(2))
  from Cons.IH [OF this] show ?case by simp
qed

lemma insertionSortCmpFunc_stable:
  "comes_before i j xs \<Longrightarrow> \<not> cmp j i < 0 \<Longrightarrow> comes_before i j (insertionSortCmpFunc xs 0 (length xs) cmp)"
  unfolding comes_before_def insertionSortCmpFunc_functional
  using foldl_insert_left_stable [of cmp j i "[]" xs] by simp

lemma set_foldl_insert_left:
  "set (foldl (\<lambda>r x. insert_left cmp x r) racc xs) = set racc \<union> set xs"
  by (induction xs arbitrary: racc) (auto simp: set_insert_left)

lemma length_foldl_insert_left:
  "length (foldl (\<lambda>r x. insert_left cmp x r) racc xs) = length racc + length xs"
  by (induction xs arbitrary: racc) (simp_all add: length_insert_left)

lemma set_insertionSortCmpFunc: "set (insertionSortCmpFunc xs 0 (length xs) cmp) = set xs"
  by (simp add: insertionSortCmpFunc_functional set_foldl_insert_left)

lemma length_insertionSortCmpFunc: "length (insertionSortCmpFunc xs 0 (length xs) cmp) = length xs"
  by (simp add: insertionSortCmpFunc_functional length_foldl_insert_left)

lemma distinct_insertionSortCmpFunc:
  "distinct xs \<Longrightarrow> distinct (insertionSortCmpFunc xs 0 (length xs) cmp)"
  by (metis card_distinct distinct_card length_insertionSortCmpFunc set_insertionSortCmpFunc)

lemma sorted_insert_left:
  assumes swap: "\<And>a b. cmp b a = - cmp a b"
    and trans: "\<And>a b c. a \<in> S \<Longrightarrow> b \<in> S \<Longrightarrow> c \<in> S \<Longrightarrow>
        cmp a b \<le> 0 \<Longrightarrow> cmp b c \<le> 0 \<Longrightarrow> cmp a c \<le> 0"
    and "x \<in> S"
  shows "set rs \<subseteq> S \<Longrightarrow> sorted_wrt (\<lambda>p q. cmp q p \<le> 0) rs \<Longrightarrow>
     sorted_wrt (\<lambda>p q. cmp q p \<le> 0) (insert_left cmp x rs)"
proof (induction rs)
  case Nil
  then show ?case by simp
next
  case (Cons p rs)
  show ?case
  proof (cases "cmp x p < 0")
    case True
    from Cons have "sorted_wrt (\<lambda>p q. cmp q p \<le> 0) (insert_left cmp x rs)" by simp
    moreover from Cons.prems True have "\<forall>q \<in> set (insert_left cmp x rs). cmp q p \<le> 0"
      by (auto simp: set_insert_left)
    ultimately show ?thesis using True by simp
  next
    case False
    with swap [of p x] have px: "cmp p x \<le> 0" by simp
    have "\<forall>q \<in> set rs. cmp q x \<le> 0"
    proof
      fix q assume q: "q \<in> set rs"
      with Cons.prems have "cmp q p \<le> 0" by simp
      moreover from q Cons.prems have "q \<in> S" "p \<in> S" by auto
      ultimately show "cmp q x \<le> 0" using px assms(3) trans by blast
    qed
    with px Cons.prems False show ?thesis by simp
  qed
qed

lemma sorted_foldl_insert_left:
  assumes swap: "\<And>a b. cmp b a = - cmp a b"
    and trans: "\<And>a b c. a \<in> S \<Longrightarrow> b \<in> S \<Longrightarrow> c \<in> S \<Longrightarrow>
        cmp a b \<le> 0 \<Longrightarrow> cmp b c \<le> 0 \<Longrightarrow> cmp a c \<le> 0"
  shows "set racc \<subseteq> S \<Longrightarrow> set xs \<subseteq> S \<Longrightarrow> sorted_wrt (\<lambda>p q. cmp q p \<le> 0) racc \<Longrightarrow>
     sorted_wrt (\<lambda>p q. cmp q p \<le> 0) (foldl (\<lambda>r x. insert_left cmp x r) racc xs)"
proof (induction xs arbitrary: racc)
  case Nil
  then show ?case by simp
next
  case (Cons x xs)
  from Cons.prems have x: "x \<in> S" by simp
  have "sorted_wrt (\<lambda>p q. cmp q p \<le> 0) (insert_left cmp x racc)"
    using swap trans x Cons.prems(1,3) by (rule sorted_insert_left)
  moreover from Cons.prems x have "set (insert_left cmp x racc) \<subseteq> S"
    by (simp add: set_insert_left)
  moreover from Cons.prems have "set xs \<subseteq> S" by simp
  ultimately show ?case using Cons.IH by simp
qed

lemma insertionSortCmpFunc_sorted:
  assumes swap: "\<And>a b. cmp b a = - cmp a b"
    and trans: "\<And>a b c. a \<in> set xs \<Longrightarrow> b \<in> set xs \<Longrightarrow> c \<in> set xs \<Longrightarrow>
        cmp a b \<le> 0 \<Longrightarrow> cmp b c \<le> 0 \<Longrightarrow> cmp a c \<le> 0"
  shows "sorted_wrt (\<lambda>a b. cmp a b \<le> 0) (insertionSortCmpFunc xs 0 (length xs) cmp)"
proof -
  have "sorted_wrt (\<lambda>p q. cmp q p \<le> 0) (foldl (\<lambda>r x. insert_left cmp x r) [] xs)"
    using swap trans by (rule sorted_foldl_insert_left [where S = "set xs"]) simp_all
  then show ?thesis
    by (simp add: insertionSortCmpFunc_functional sorted_wrt_rev)
qed

lemma insert_left_all_less:
  "\<forall>p \<in> set rs. cmp x p < 0 \<Longrightarrow> insert_left cmp x rs = rs @ [x]"
  by (induction rs) simp_all

lemma foldl_insert_left_descending:
  "sorted_wrt (\<lambda>a b. cmp b a < 0) xs \<Longrightarrow> \<forall>a \<in> set racc. \<forall>b \<in> set xs. cmp b a < 0 \<Longrightarrow>
     foldl (\<lambda>r x. insert_left cmp x r) racc xs = racc @ xs"
proof (induction xs arbitrary: racc)
  case Nil
  then show ?case by simp
next
  case (Cons x xs)
  from Cons.prems have "insert_left cmp x racc = racc @ [x]"
    by (intro insert_left_all_less) simp
  moreover from Cons.prems have "sorted_wrt (\<lambda>a b. cmp b a < 0) xs"
    and "\<forall>a \<in> set (racc @ [x]). \<forall>b \<in> set xs. cmp b a < 0"
    by auto
  ultimately show ?case using Cons.IH [of "racc @ [x]"] by simp
qed

lemma insertionSortCmpFunc_descending:
  "sorted_wrt (\<lambda>a b. cmp b a < 0) xs \<Longrightarrow> insertionSortCmpFunc xs 0 (length xs) cmp = rev xs"
  using foldl_insert_left_descending [of cmp xs "[]"]
  by (simp add: insertionSortCmpFunc_functional)

lemma Sort_order_eq:
  "Sort_order ff rows col reverse =
     insertionSortCmpFunc [0..<length rows] 0 (length [0..<length rows])
       (Sort_cmp ff rows col reverse)"
  by (simp add: Sort_order_def)

lemma Sort_small_result:
  assumes "length (tags ds) = length (data ds)" "length (data ds) \<le> 12"
    and "0 \<le> colIndex" "colIndex < int (Width ds)"
    and "\<forall>row \<in> set (data ds). nat colIndex < length row"
  shows "Sort next ff ds colIndex reverse =
    Inr (ds\<lparr> data := map (\<lambda>idx. data ds ! idx) (Sort_order ff (data ds) (nat colIndex) reverse),
             tags := map (\<lambda>idx. tags ds ! idx) (Sort_order ff (data ds) (nat colIndex) reverse) \<rparr>)"
proof -
  from assms(5) have "\<not> (\<exists>row \<in> set (data ds). length row \<le> nat colIndex)" by auto
  then show ?thesis
    using assms(2,3,4)
    by (simp add: Sort_def Copy_id [OF assms(1)] Let_def SortFunc_def Sort_order_def
          pdqsortCmpFunc.simps)
qed

lemma Sort_cmp_swap: "Sort_cmp ff rows c reverse b a = - Sort_cmp ff rows c reverse a b"
  using compareAny_swap [of ff "rows ! b ! c" "rows ! a ! c"]
  by (simp add: Sort_cmp_def Let_def)

lemma Sort_cmp_trans:
  assumes "kind_of (rows ! a ! c) = kind_of (rows ! b ! c)"
    and "kind_of (rows ! b ! c) = kind_of (rows ! d ! c)"
    and "Sort_cmp ff rows c reverse a b \<le> 0" "Sort_cmp ff rows c reverse b d \<le> 0"
  shows "Sort_cmp ff rows c reverse a d \<le> 0"
proof (cases reverse)
  case False
  with assms show ?thesis
    using compareAny_trans_same_kind [of "rows ! a ! c" "rows ! b ! c" "rows ! d ! c" ff]
    by (simp add: Sort_cmp_def Let_def)
next
  case True
  with assms(3,4) have "compareAny ff (rows ! d ! c) (rows ! b ! c) \<le> 0"
    and "compareAny ff (rows ! b ! c) (rows ! a ! c) \<le> 0"
    using compareAny_swap [of ff "rows ! d ! c" "rows ! b ! c"]
      compareAny_swap [of ff "rows ! b ! c" "rows ! a ! c"]
    by (simp_all add: Sort_cmp_def Let_def)
  then have "compareAny ff (rows ! d ! c) (rows ! a ! c) \<le> 0"
    using assms(1,2)
    by (intro compareAny_trans_same_kind [of "rows ! d ! c" "rows ! b ! c" "rows ! a ! c" ff])
       simp_all
  with True show ?thesis
    using compareAny_swap [of ff "rows ! d ! c" "rows ! a ! c"]
    by (simp add: Sort_cmp_def Let_def)
qed

lemma Sort_order_perm:
  "distinct (Sort_order ff rows c reverse) \<and> set (Sort_order ff rows c reverse) = {0..<length rows}
     \<and> length (Sort_order ff rows c reverse) = length rows"
  unfolding Sort_order_eq
  by (simp only: set_insertionSortCmpFunc length_insertionSortCmpFunc
        distinct_insertionSortCmpFunc [OF distinct_upt]) simp

lemma filter_upt_none: "n \<le> i \<Longrightarrow> n \<le> j \<Longrightarrow> filter (\<lambda>z. z = i \<or> z = j) [0..<n] = []"
  by (auto simp: filter_empty_conv)

lemma filter_upt_one: "i < n \<Longrightarrow> n \<le> j \<Longrightarrow> filter (\<lambda>z. z = i \<or> z = j) [0..<n] = [i]"
proof (induction n)
  case 0
  then show ?case by simp
next
  case (Suc n)
  show ?case
  proof (cases "i = n")
    case True
    with Suc.prems show ?thesis using filter_upt_none [of n i j] by simp
  next
    case False
    with Suc.prems have "i < n" "n \<le> j" "n \<noteq> j" by simp_all
    with Suc.IH False show ?thesis by simp
  qed
qed

lemma comes_before_upt: "i < j \<Longrightarrow> j < n \<Longrightarrow> comes_before i j [0..<n]"
proof (induction n)
  case 0
  then show ?case by simp
next
  case (Suc n)
  show ?case
  proof (cases "j = n")
    case True
    with Suc.prems show ?thesis using filter_upt_one [of i n j] by (simp add: comes_before_def)
  next
    case False
    with Suc.prems have "j < n" "n \<noteq> i" "n \<noteq> j" by simp_all
    with Suc.IH Suc.prems show ?thesis by (simp add: comes_before_def)
  qed
qed

lemma Sort_order_stable:
  "i < j \<Longrightarrow> j < length rows \<Longrightarrow> \<not> Sort_cmp ff rows c reverse j i < 0 \<Longrightarrow>
     comes_before i j (Sort_order ff rows c reverse)"
  unfolding Sort_order_eq
  by (rule insertionSortCmpFunc_stable) (simp_all add: comes_before_upt)

lemma Sort_order_sorted:
  assumes "\<forall>i<length rows. \<forall>j<length rows. kind_of (rows ! i ! c) = kind_of (rows ! j ! c)"
  shows "sorted_wrt (\<lambda>a b. Sort_cmp ff rows c reverse a b \<le> 0) (Sort_order ff rows c reverse)"
proof -
  have tr: "Sort_cmp ff rows c reverse a d \<le> 0"
    if "a \<in> set [0..<length rows]" "b \<in> set [0..<length rows]" "d \<in> set [0..<length rows]"
      and le: "Sort_cmp ff rows c reverse a b \<le> 0" "Sort_cmp ff rows c reverse b d \<le> 0"
    for a b d
  proof -
    from that(1,2,3) have lt: "a < length rows" "b < length rows" "d < length rows"
      by simp_all
    from assms lt have "kind_of (rows ! a ! c) = kind_of (rows ! b ! c)" by blast
    moreover from assms lt have "kind_of (rows ! b ! c) = kind_of (rows ! d ! c)" by blast
    ultimately show ?thesis using le by (rule Sort_cmp_trans)
  qed
  show ?thesis
    unfolding Sort_order_eq
  proof (rule insertionSortCmpFunc_sorted [where cmp = "Sort_cmp ff rows c reverse"
        and xs = "[0..<length rows]"])
    show "\<And>a b. Sort_cmp ff rows c reverse b a = - Sort_cmp ff rows c reverse a b"
      by (rule Sort_cmp_swap)
    show "\<And>a b d. a \<in> set [0..<length rows] \<Longrightarrow> b \<in> set [0..<length rows] \<Longrightarrow>
        d \<in> set [0..<length rows] \<Longrightarrow> Sort_cmp ff rows c reverse a b \<le> 0 \<Longrightarrow>
        Sort_cmp ff rows c reverse b d \<le> 0 \<Longrightarrow> Sort_cmp ff rows c reverse a d \<le> 0"
      by (rule tr)
  qed
qed

lemma Sort_cmp_permuted:
  "a < length p \<Longrightarrow> b < length p \<Longrightarrow>
     Sort_cmp ff (map (\<lambda>idx. rows ! idx) p) c reverse a b = Sort_cmp ff rows c reverse (p ! a) (p ! b)"
  by (simp add: Sort_cmp_def)

lemma Sort_order_reversed:
  assumes kinds: "\<forall>i<length rows. \<forall>j<length rows. kind_of (rows ! i ! c) = kind_of (rows ! j ! c)"
    and ties: "\<forall>i j. i < j \<and> j < length rows \<longrightarrow> compareAny ff (rows ! i ! c) (rows ! j ! c) \<noteq> 0"
  shows "Sort_order ff (map (\<lambda>idx. rows ! idx) (Sort_order ff rows c False)) c True
           = rev [0..<length rows]"
proof -
  define p where "p = Sort_order ff rows c False"
  define rows1 where "rows1 = map (\<lambda>idx. rows ! idx) p"
  have perm: "distinct p" "set p = {0..<length rows}" "length p = length rows"
    using Sort_order_perm [of ff rows c False] by (simp_all add: p_def)
  have l1: "length rows1 = length rows" by (simp add: rows1_def perm)
  have srt: "sorted_wrt (\<lambda>a b. Sort_cmp ff rows c False a b \<le> 0) p"
    unfolding p_def using kinds by (rule Sort_order_sorted)
  have tie: "compareAny ff (rows ! i ! c) (rows ! j ! c) \<noteq> 0"
    if "i < length rows" "j < length rows" "i \<noteq> j" for i j
  proof (cases "i < j")
    case True
    with ties that show ?thesis by blast
  next
    case False
    with that have "j < i" by simp
    with ties that have "compareAny ff (rows ! j ! c) (rows ! i ! c) \<noteq> 0" by blast
    then show ?thesis using compareAny_swap [of ff "rows ! i ! c" "rows ! j ! c"] by simp
  qed
  have strict: "Sort_cmp ff rows1 c True b a < 0" if "a < b" "b < length rows" for a b
  proof -
    from that perm have ab: "a < length p" "b < length p" by simp_all
    from srt that ab have le: "Sort_cmp ff rows c False (p ! a) (p ! b) \<le> 0"
      by (simp add: sorted_wrt_iff_nth_less)
    from perm ab that have ne: "p ! a \<noteq> p ! b" by (simp add: nth_eq_iff_index_eq)
    from perm ab have "p ! a < length rows" "p ! b < length rows"
      by (metis atLeastLessThan_iff nth_mem)+
    with ne have "compareAny ff (rows ! (p ! a) ! c) (rows ! (p ! b) ! c) \<noteq> 0" by (intro tie)
    with le have lt: "compareAny ff (rows ! (p ! a) ! c) (rows ! (p ! b) ! c) < 0"
      by (simp add: Sort_cmp_def)
    have "Sort_cmp ff rows1 c True b a = Sort_cmp ff rows c True (p ! b) (p ! a)"
      unfolding rows1_def using ab by (intro Sort_cmp_permuted)
    also have "\<dots> = compareAny ff (rows ! (p ! a) ! c) (rows ! (p ! b) ! c)"
      using compareAny_swap [of ff "rows ! (p ! b) ! c" "rows ! (p ! a) ! c"]
      by (simp add: Sort_cmp_def)
    finally show ?thesis using lt by simp
  qed
  have "sorted_wrt (\<lambda>a b. Sort_cmp ff rows1 c True b a < 0) [0..<length rows]"
    by (simp add: sorted_wrt_iff_nth_less strict)
  then have "insertionSortCmpFunc [0..<length rows] 0 (length [0..<length rows])
        (Sort_cmp ff rows1 c True)
      = rev [0..<length rows]"
    by (rule insertionSortCmpFunc_descending)
  then have "Sort_order ff rows1 c True = rev [0..<length rows]"
    by (simp add: Sort_order_def l1)
  then show ?thesis unfolding rows1_def p_def .
qed

lemma map_nth_rev_upt: "length xs = n \<Longrightarrow> map (\<lambda>idx. xs ! idx) (rev [0..<n]) = rev xs"
proof -
  assume "length xs = n"
  then have "map (\<lambda>idx. xs ! idx) [0..<n] = xs" using map_nth [of xs] by simp
  then show ?thesis by (simp add: rev_map [symmetric])
qed

lemma Sort_twice:
  assumes wf: "length (tags ds) = length (data ds)" "length (data ds) \<le> 12"
    and col: "0 \<le> colIndex" "colIndex < int (Width ds)"
    and long: "\<forall>row \<in> set (data ds). nat colIndex < length row"
    and kinds: "\<forall>i<length (data ds). \<forall>j<length (data ds).
        kind_of (data ds ! i ! nat colIndex) = kind_of (data ds ! j ! nat colIndex)"
    and ties: "\<forall>i j. i < j \<and> j < length (data ds) \<longrightarrow>
        compareAny ff (data ds ! i ! nat colIndex) (data ds ! j ! nat colIndex) \<noteq> 0"
  shows "\<exists>r1. Sort next ff ds colIndex False = Inr r1 \<and>
    Sort next ff r1 colIndex True = Inr (r1\<lparr> data := rev (data r1), tags := rev (tags r1) \<rparr>)"
proof -
  define c where "c = nat colIndex"
  define p where "p = Sort_order ff (data ds) c False"
  define r1 where "r1 = ds\<lparr> data := map (\<lambda>idx. data ds ! idx) p,
      tags := map (\<lambda>idx. tags ds ! idx) p \<rparr>"
  have perm: "distinct p" "set p = {0..<length (data ds)}" "length p = length (data ds)"
    using Sort_order_perm [of ff "data ds" c False] by (simp_all add: p_def)
  have s1: "Sort next ff ds colIndex False = Inr r1"
    unfolding r1_def p_def c_def using wf col long by (rule Sort_small_result)
  have len1: "length (data r1) = length (data ds)" "length (tags r1) = length (data ds)"
    by (simp_all add: r1_def perm)
  have sub: "set (data r1) \<subseteq> set (data ds)"
    using perm by (auto simp: r1_def)
  with long have long1: "\<forall>row \<in> set (data r1). nat colIndex < length row" by blast
  have w1: "colIndex < int (Width r1)"
  proof (cases "headers ds = []")
    case False
    with col show ?thesis by (simp add: Width_def r1_def)
  next
    case True
    with col have ne: "data ds \<noteq> []" by (auto simp: Width_def)
    with len1 have ne1: "data r1 \<noteq> []" by auto
    then have "data r1 ! 0 \<in> set (data r1)" by simp
    with long1 have "nat colIndex < length (data r1 ! 0)" by blast
    with True ne1 col show ?thesis by (simp add: Width_def r1_def)
  qed
  have s2: "Sort next ff r1 colIndex True =
    Inr (r1\<lparr> data := map (\<lambda>idx. data r1 ! idx) (Sort_order ff (data r1) (nat colIndex) True),
             tags := map (\<lambda>idx. tags r1 ! idx) (Sort_order ff (data r1) (nat colIndex) True) \<rparr>)"
    using len1 wf(2) col(1) w1 long1 by (intro Sort_small_result) simp_all
  have "Sort_order ff (map (\<lambda>idx. data ds ! idx) (Sort_order ff (data ds) c False)) c True
      = rev [0..<length (data ds)]"
    using kinds ties unfolding c_def by (rule Sort_order_reversed)
  then have o2: "Sort_order ff (data r1) (nat colIndex) True = rev [0..<length (data ds)]"
    by (simp add: r1_def p_def c_def)
  have "Sort next ff r1 colIndex True = Inr (r1\<lparr> data := rev (data r1), tags := rev (tags r1) \<rparr>)"
    unfolding s2 o2 by (simp add: map_nth_rev_upt len1)
  with s1 show ?thesis by blast
qed

text \<open>
  Up to 12 rows \<open>slices.SortFunc\<close> runs its insertion sort, which is stable: for such a
  dataset, with one tag list per row, a valid column index and rows that hold the
  column, \<open>Sort\<close> returns the dataset with rows and tags reordered by one permutation of
  the row indices, and a row stays before every later row that does not compare less
  than it in the order used, so rows that tie keep their relative input order. When
  the values of the column are of one kind, the result is ordered by \<open>compareAny\<close> on
  the column (negated for a reverse sort); when in addition no two rows tie,
  \<open>Sort(col, false)\<close> followed by \<open>Sort(col, true)\<close> on the result yields the rows and
  tags of the ascending result in reverse order.
\<close>

lemma Sort_stable_small:
  assumes "length (tags ds) = length (data ds)" and "length (data ds) \<le> 12"
    and "0 \<le> colIndex" and "colIndex < int (Width ds)"
    and "\<forall>row \<in> set (data ds). nat colIndex < length row"
  shows "Sort next ff ds colIndex reverse =
      Inr (ds\<lparr> data := map (\<lambda>idx. data ds ! idx)
                          (Sort_order ff (data ds) (nat colIndex) reverse),
               tags := map (\<lambda>idx. tags ds ! idx)
                          (Sort_order ff (data ds) (nat colIndex) reverse) \<rparr>) \<and>
    distinct (Sort_order ff (data ds) (nat colIndex) reverse) \<and>
    set (Sort_order ff (data ds) (nat colIndex) reverse) = {0..<length (data ds)} \<and>
    (\<forall>i j. i < j \<and> j < length (data ds) \<and>
        \<not> Sort_cmp ff (data ds) (nat colIndex) reverse j i < 0 \<longrightarrow>
        comes_before i j (Sort_order ff (data ds) (nat colIndex) reverse)) \<and>
    ((\<forall>i<length (data ds). \<forall>j<length (data ds).
        kind_of (data ds ! i ! nat colIndex) = kind_of (data ds ! j ! nat colIndex)) \<longrightarrow>
      sorted_wrt (\<lambda>a b. Sort_cmp ff (data ds) (nat colIndex) reverse a b \<le> 0)
        (Sort_order ff (data ds) (nat colIndex) reverse)) \<and>
    ((\<forall>i<length (data ds). \<forall>j<length (data ds).
        kind_of (data ds ! i ! nat colIndex) = kind_of (data ds ! j ! nat colIndex)) \<and>
     (\<forall>i j. i < j \<and> j < length (data ds) \<longrightarrow>
        compareAny ff (data ds ! i ! nat colIndex) (data ds ! j ! nat colIndex) \<noteq> 0) \<longrightarrow>
      (\<exists>r1. Sort next ff ds colIndex False = Inr r1 \<and>
         Sort next ff r1 colIndex True =
           Inr (r1\<lparr> data := rev (data r1), tags := rev (tags r1) \<rparr>)))"
proof (intro conjI impI)
  show "Sort next ff ds colIndex reverse =
      Inr (ds\<lparr> data := map (\<lambda>idx. data ds ! idx)
                          (Sort_order ff (data ds) (nat colIndex) reverse),
               tags := map (\<lambda>idx. tags ds ! idx)
                          (Sort_order ff (data ds) (nat colIndex) reverse) \<rparr>)"
    using assms by (rule Sort_small_result)
  show "distinct (Sort_order ff (data ds) (nat colIndex) reverse)"
    using Sort_order_perm [of ff "data ds" "nat colIndex" reverse] by simp
  show "set (Sort_order ff (data ds) (nat colIndex) reverse) = {0..<length (data ds)}"
    using Sort_order_perm [of ff "data ds" "nat colIndex" reverse] by simp
  show "\<forall>i j. i < j \<and> j < length (data ds) \<and>
        \<not> Sort_cmp ff (data ds) (nat colIndex) reverse j i < 0 \<longrightarrow>
        comes_before i j (Sort_order ff (data ds) (nat colIndex) reverse)"
    using Sort_order_stable [of _ _ "data ds" ff "nat colIndex" reverse] by blast
next
  assume "\<forall>i<length (data ds). \<forall>j<length (data ds).
        kind_of (data ds ! i ! nat colIndex) = kind_of (data ds ! j ! nat colIndex)"
  then show "sorted_wrt (\<lambda>a b. Sort_cmp ff (data ds) (nat colIndex) reverse a b \<le> 0)
        (Sort_order ff (data ds) (nat colIndex) reverse)"
    by (rule Sort_order_sorted)
next
  assume a: "(\<forall>i<length (data ds). \<forall>j<length (data ds).
        kind_of (data ds ! i ! nat colIndex) = kind_of (data ds ! j ! nat colIndex)) \<and>
     (\<forall>i j. i < j \<and> j < length (data ds) \<longrightarrow>
        compareAny ff (data ds ! i ! nat colIndex) (data ds ! j ! nat colIndex) \<noteq> 0)"
  show "\<exists>r1. Sort next ff ds colIndex False = Inr r1 \<and>
         Sort next ff r1 colIndex True =
           Inr (r1\<lparr> data := rev (data r1), tags := rev (tags r1) \<rparr>)"
    using assms a [THEN conjunct1] a [THEN conjunct2] by (rule Sort_twice)
qed

lemma mixed_orders:
  "Sort_order no_floats (data mixed_example) 0 False = [0, 1, 2] \<and>
   Sort_order no_floats (data mixed_example) 0 True = [1, 0, 2]"
  by (simp add: Sort_order_def insertionSortCmpFunc_def exchange_def mixed_example_def
        Sort_cmp_def compare_int_def show_int_def digits.simps upt_conv_Cons)

text \<open>
  On a column of mixed kinds ascending and then descending is not the reverse, though
  no two rows tie: the rows 2, 10, \<open>"1x"\<close> do not tie pairwise, \<open>Sort(0, false)\<close> leaves
  them in this order, and \<open>Sort(0, true)\<close> of the result gives 10, 2, \<open>"1x"\<close>, which is
  not the reverse \<open>"1x"\<close>, 10, 2.
\<close>

lemma Sort_mixed_kinds_not_reversed:
  "Sort next no_floats mixed_example 0 False = Inr mixed_example \<and>
   Sort next no_floats mixed_example 0 True =
     Inr (mixed_example\<lparr> data := [[CInt 10], [CInt 2], [CString ''1x'']] \<rparr>) \<and>
   rev (data mixed_example) = [[CString ''1x''], [CInt 10], [CInt 2]] \<and>
   compareAny no_floats (CInt 2) (CInt 10) \<noteq> 0 \<and>
   compareAny no_floats (CInt 2) (CString ''1x'') \<noteq> 0 \<and>
   compareAny no_floats (CInt 10) (CString ''1x'') \<noteq> 0"
proof -
  have wf: "length (tags mixed_example) = length (data mixed_example)"
    "length (data mixed_example) \<le> 12" "(0::int) \<le> 0" "0 < int (Width mixed_example)"
    "\<forall>row \<in> set (data mixed_example). nat 0 < length row"
    by (simp_all add: mixed_example_def Width_def)
  have a: "Sort next no_floats mixed_example 0 False = Inr mixed_example"
    using Sort_small_result [OF wf, of "next" no_floats False] mixed_orders
    by (simp add: mixed_example_def)
  have b: "Sort next no_floats mixed_example 0 True =
     Inr (mixed_example\<lparr> data := [[CInt 10], [CInt 2], [CString ''1x'']] \<rparr>)"
    using Sort_small_result [OF wf, of "next" no_floats True] mixed_orders
    by (simp add: mixed_example_def)
  have c: "rev (data mixed_example) = [[CString ''1x''], [CInt 10], [CInt 2]]"
    by (simp add: mixed_example_def)
  have d: "compareAny no_floats (CInt 2) (CInt 10) \<noteq> 0 \<and>
   compareAny no_floats (CInt 2) (CString ''1x'') \<noteq> 0 \<and>
   compareAny no_floats (CInt 10) (CString ''1x'') \<noteq> 0"
    by (simp add: compare_int_def show_int_def digits.simps)
  from a b c d show ?thesis by simp
qed

subsection \<open>Thirteen rows\<close>

text \<open>
  Beyond 12 rows \<open>slices.SortFunc\<close> partitions. On the 13 rows of \<open>ties_example\<close> the
  pivot is row 3, the median of the rows 3, 6 and 9; \<open>partitionCmpFunc\<close> first puts it at
  the front and at the end exchanges it with row 8, which has moved to position 7.
  Both sides of the pivot then hold rows that tie, and the insertion sort leaves them
  as they are.
\<close>

lemma ties_pivot:
  "choosePivotCmpFunc [0..<13] 0 13 (Sort_cmp no_floats (data ties_example) 0 False)
     = (3, unknownHint)"
  by (simp add: choosePivotCmpFunc_def medianCmpFunc_def order2CmpFunc_def Let_def
        Sort_cmp_def ties_example_def compare_int_def upt_conv_Cons)

lemma ties_partition:
  "partitionCmpFunc [0..<13] 0 13 3 (Sort_cmp no_floats (data ties_example) 0 False)
     = ([8, 12, 2, 0, 4, 10, 6, 3, 7, 9, 5, 11, 1], 7, False)"
  by (simp add: partitionCmpFunc_def partition_loop.simps partition_up.simps partition_down.simps
        exchange_def Let_def Sort_cmp_def ties_example_def compare_int_def upt_conv_Cons)

lemma ties_right:
  "insertionSortCmpFunc [8, 12, 2, 0, 4, 10, 6, 3, 7, 9, 5, 11, 1] 8 13
       (Sort_cmp no_floats (data ties_example) 0 False)
     = [8, 12, 2, 0, 4, 10, 6, 3, 7, 9, 5, 11, 1]"
  by (simp add: insertionSortCmpFunc_def upt_conv_Cons numeral_eq_Suc
        Sort_cmp_def ties_example_def compare_int_def)

lemma ties_left:
  "insertionSortCmpFunc [8, 12, 2, 0, 4, 10, 6, 3, 7, 9, 5, 11, 1] 0 7
       (Sort_cmp no_floats (data ties_example) 0 False)
     = [8, 12, 2, 0, 4, 10, 6, 3, 7, 9, 5, 11, 1]"
  by (simp add: insertionSortCmpFunc_def upt_conv_Cons numeral_eq_Suc
        Sort_cmp_def ties_example_def compare_int_def)

lemma bits_Len_13: "bits_Len 13 = 4"
  by (simp add: bits_Len.simps)

lemma ties_SortFunc:
  "SortFunc next [0..<13] (Sort_cmp no_floats (data ties_example) 0 False)
     = [8, 12, 2, 0, 4, 10, 6, 3, 7, 9, 5, 11, 1]"
proof -
  have "pdqsortCmpFunc next (Sort_cmp no_floats (data ties_example) 0 False) [0..<13] 0 13 4
          True True
     = pdqsortCmpFunc next (Sort_cmp no_floats (data ties_example) 0 False)
         (pdqsortCmpFunc next (Sort_cmp no_floats (data ties_example) 0 False)
            [8, 12, 2, 0, 4, 10, 6, 3, 7, 9, 5, 11, 1] 8 13 4 True True)
         0 7 4 True False"
    by (subst pdqsortCmpFunc.simps) (simp add: ties_pivot ties_partition Let_def)
  also have "\<dots> = [8, 12, 2, 0, 4, 10, 6, 3, 7, 9, 5, 11, 1]"
    by (simp add: pdqsortCmpFunc.simps ties_right [unfolded One_nat_def]
          ties_left [unfolded One_nat_def])
  finally show ?thesis by (simp add: SortFunc_def bits_Len_13)
qed

text \<open>
  Claim C2 at the input \<open>ties_example\<close>, 13 rows whose first column holds 0 and 1 in
  turn: \<open>Sort(0, false)\<close> returns the rows in the order 8, 12, 2, 0, 4, 10, 6, 3, 7, 9,
  5, 11, 1 of their input positions. The rows 0 and 8 tie on the column, row 0 stands
  before row 8 in the input, and row 8 stands before row 0 in the result: rows that tie
  do not keep their relative input order.
\<close>

theorem Sort_not_stable:
  "Sort next no_floats ties_example 0 False =
     Inr (ties_example\<lparr> data :=
       [[CInt 0, CInt 8], [CInt 0, CInt 12], [CInt 0, CInt 2], [CInt 0, CInt 0],
        [CInt 0, CInt 4], [CInt 0, CInt 10], [CInt 0, CInt 6], [CInt 1, CInt 3],
        [CInt 1, CInt 7], [CInt 1, CInt 9], [CInt 1, CInt 5], [CInt 1, CInt 11],
        [CInt 1, CInt 1]] \<rparr>) \<and>
   data ties_example ! 0 = [CInt 0, CInt 0] \<and>
   data ties_example ! 8 = [CInt 0, CInt 8] \<and>
   compareAny no_floats (data ties_example ! 0 ! 0) (data ties_example ! 8 ! 0) = 0"
proof -
  have len: "length (data ties_example) = 13" by (simp add: ties_example_def)
  have wf: "length (tags ties_example) = length (data ties_example)"
    by (simp add: ties_example_def)
  have w: "Width ties_example = 2" by (simp add: Width_def ties_example_def)
  have long: "\<not> (\<exists>row \<in> set (data ties_example). length row \<le> 0)"
    by (simp add: ties_example_def)
  have "Sort next no_floats ties_example 0 False =
     Inr (ties_example\<lparr> data := map (\<lambda>idx. data ties_example ! idx)
              [8, 12, 2, 0, 4, 10, 6, 3, 7, 9, 5, 11, 1],
            tags := map (\<lambda>idx. tags ties_example ! idx)
              [8, 12, 2, 0, 4, 10, 6, 3, 7, 9, 5, 11, 1] \<rparr>)"
    using long by (simp add: Sort_def Copy_id [OF wf] Let_def w len ties_SortFunc)
  then have a: "Sort next no_floats ties_example 0 False =
     Inr (ties_example\<lparr> data :=
       [[CInt 0, CInt 8], [CInt 0, CInt 12], [CInt 0, CInt 2], [CInt 0, CInt 0],
        [CInt 0, CInt 4], [CInt 0, CInt 10], [CInt 0, CInt 6], [CInt 1, CInt 3],
        [CInt 1, CInt 7], [CInt 1, CInt 9], [CInt 1, CInt 5], [CInt 1, CInt 11],
        [CInt 1, CInt 1]] \<rparr>)"
    by (simp add: ties_example_def)
  have b: "data ties_example ! 0 = [CInt 0, CInt 0]" "data ties_example ! 8 = [CInt 0, CInt 8]"
    "compareAny no_floats (data ties_example ! 0 ! 0) (data ties_example ! 8 ! 0) = 0"
    by (simp_all add: ties_example_def compare_int_def)
  from a b show ?thesis by simp
qed


end
